theory Spec2Isabelle
  imports Complex_Main "HOL-Library.Word"
begin

section \<open>SequenceDispatcher: the data model\<close>

text \<open>
  The embedding follows \<^verbatim>\<open>td/telegram/SequenceDispatcher.cpp\<close>. Every member function
  becomes a function on an explicit dispatcher state. A failed \<^verbatim>\<open>CHECK\<close>, a dereference
  of an empty \<^verbatim>\<open>NetQueryPtr\<close> and an out-of-range subscript are results of their own.

  Conventions of the embedding:
  \<^item> \<^verbatim>\<open>size_t\<close> positions and counters are natural numbers; the sentinel
    \<^verbatim>\<open>std::numeric_limits<size_t>::max()\<close> of \<^verbatim>\<open>last_sent_i_\<close> is \<open>None\<close>; a
    \<^verbatim>\<open>size_t\<close> subtraction that would wrap around is followed in the source by a
    \<^verbatim>\<open>CHECK\<close> against the size of the queue, and is modelled as the failure of that check;
  \<^item> a C++ \<^verbatim>\<open>double\<close> timeout is a real number; the sum of two doubles is the
    real sum rounded to a double, and the rounding is the parameter \<open>round_double\<close>
    (no NaN, no infinity);
  \<^item> the members' trailing underscore is dropped (\<^verbatim>\<open>state_\<close> is \<open>state\<close>); the
    node's \<^verbatim>\<open>generation_\<close> is \<open>data_generation\<close>, the members of \<^verbatim>\<open>NetQuery\<close>
    carry the prefix \<open>query_\<close>;
  \<^item> \<^verbatim>\<open>send_closure\<close>, \<^verbatim>\<open>dispatch_with_callback\<close> and the timer calls append to the
    list \<open>outbox\<close> of the effects the actor has emitted, in order;
  \<^item> logging and \<^verbatim>\<open>debug\<close> strings are left out.
\<close>

datatype error = CheckFailed | NullDeref | OutOfRange

datatype State = Start | Wait | Finish | Dummy

text \<open>
  Modelled from the spec: the class \<^verbatim>\<open>NetQuery\<close> is not in the sources. A weak reference
  (\<^verbatim>\<open>NetQueryRef\<close>) is the identity of the query it points to, or empty (\<open>None\<close>).
\<close>

type_synonym NetQueryRef = "nat option"

record NetQuery =
  query_id :: nat
  query_total_timeout :: real
  query_total_timeout_limit :: real
  query_last_timeout :: real
  query_invoke_after :: "NetQueryRef list"
  query_error :: "(int \<times> string) option"
  query_session_rand :: "32 word"

definition get_weak :: "NetQuery \<Rightarrow> NetQueryRef" where
  "get_weak q = Some (query_id q)"

definition is_error :: "NetQuery \<Rightarrow> bool" where
  "is_error q = (query_error q \<noteq> None)"

text \<open>
  Modelled from the spec: \<^verbatim>\<open>NetQuery::set_error\<close> is not in the sources; it stores the
  error status in the query.
\<close>

definition set_error :: "int \<times> string \<Rightarrow> NetQuery \<Rightarrow> NetQuery" where
  "set_error e q = q\<lparr>query_error := Some e\<rparr>"

type_synonym callback_ref = nat

record Data =
  state :: State
  net_query_ref :: NetQueryRef
  query :: "NetQuery option"
  callback :: callback_ref
  data_generation :: nat
  total_timeout :: real
  last_timeout :: real

text \<open>What the actor emits: the calls that leave the dispatcher.\<close>

datatype effect =
    DispatchWithCallback NetQuery nat
  | OnResultResendable callback_ref NetQuery nat
  | ParentOnResult
  | ParentReadyToClose

record SequenceDispatcher =
  parent :: "nat option"
  id_offset :: nat
  data :: "Data list"
  finish_i :: nat
  next_i :: nat
  last_sent_i :: "nat option"
  generation :: nat
  session_rand :: "32 word"
  wait_cnt :: nat
  timeout_in :: "nat option"
  outbox :: "effect list"

text \<open>
  The constants and helpers the source uses without defining them: the header with
  \<^verbatim>\<open>MAX_SIMULTANEOUS_WAIT\<close>, the error code \<^verbatim>\<open>NetQuery::ResendInvokeAfter\<close>,
  \<^verbatim>\<open>Global::request_aborted_error()\<close> and \<^verbatim>\<open>NetQuery::resend()\<close> are parameters.
  So is the arithmetic of the platform: \<open>round_double\<close> rounds a real number to the
  \<^verbatim>\<open>double\<close> that stands for it, and \<open>static_cast_int32\<close> is the conversion
  \<^verbatim>\<open>static_cast<int32>\<close> of a \<^verbatim>\<open>double\<close>, whose result is a 32-bit integer
  whatever the argument (C++ defines it, as the truncation towards zero, only where the
  truncated value fits).
\<close>

record params =
  MAX_SIMULTANEOUS_WAIT :: nat
  ResendInvokeAfter :: int
  request_aborted_error :: "int \<times> string"
  resend :: "NetQuery \<Rightarrow> NetQuery"
  round_double :: "real \<Rightarrow> real"
  static_cast_int32 :: "real \<Rightarrow> 32 word"

text \<open>The sum of two doubles, as \<^verbatim>\<open>+\<close> and \<^verbatim>\<open>+=\<close> compute it.\<close>

definition double_add :: "params \<Rightarrow> real \<Rightarrow> real \<Rightarrow> real" where
  "double_add c x y = round_double c (x + y)"

text \<open>
  What IEEE 754 and the C++ standard say of the two parameters, where they say it: rounding
  to the nearest double changes a number between \<open>1/2\<close> and \<open>2\<^sup>3\<^sup>2\<close> by at most its
  \<open>2\<^sup>5\<^sup>3\<close>-th part, and \<^verbatim>\<open>static_cast<int32>\<close> truncates towards zero a number whose
  truncation is a 32-bit integer.
\<close>

definition truncate_real :: "real \<Rightarrow> int" where
  "truncate_real x = (if 0 \<le> x then \<lfloor>x\<rfloor> else \<lceil>x\<rceil>)"


section \<open>SequenceDispatcher: the member functions\<close>

definition set_data :: "nat \<Rightarrow> Data \<Rightarrow> SequenceDispatcher \<Rightarrow> SequenceDispatcher" where
  "set_data pos d s = s\<lparr>data := (data s)[pos := d]\<rparr>"

text \<open>\<^verbatim>\<open>try_resend_query\<close> (lines 69-85).\<close>

definition try_resend_query ::
  "nat \<Rightarrow> NetQuery \<Rightarrow> SequenceDispatcher \<Rightarrow> error + SequenceDispatcher" where
  "try_resend_query pos q s =
     (if \<not> pos < length (data s) then Inl CheckFailed
      else if state (data s ! pos) \<noteq> Dummy then Inl CheckFailed
      else Inr ((set_data pos ((data s ! pos)\<lparr>state := Wait\<rparr>) s)
                  \<lparr>wait_cnt := wait_cnt s + 1,
                   outbox := outbox s @
                     [OnResultResendable (callback (data s ! pos)) q (pos + id_offset s)]\<rparr>))"

text \<open>
  The text of the synthesised error (line 60): the literal \<^verbatim>\<open>0.999\<close> is a double, the
  sum \<^verbatim>\<open>data.last_timeout_ + 0.999\<close> is a sum of doubles, \<^verbatim>\<open>static_cast<int32>\<close>
  converts it, and the string builder prints the signed number in decimal.
\<close>

fun show_nat :: "nat \<Rightarrow> string" where
  "show_nat n =
     (if n < 10 then [''0123456789'' ! n]
      else show_nat (n div 10) @ [''0123456789'' ! (n mod 10)])"

declare show_nat.simps [simp del]

definition show_int :: "int \<Rightarrow> string" where
  "show_int i = (if i < 0 then CHR ''-'' # show_nat (nat (- i)) else show_nat (nat i))"

definition retry_after :: "params \<Rightarrow> real \<Rightarrow> int" where
  "retry_after c t = sint (static_cast_int32 c (double_add c t (round_double c 0.999)))"

definition too_many_requests :: "params \<Rightarrow> real \<Rightarrow> int \<times> string" where
  "too_many_requests c t =
     (429, ''Too Many Requests: retry after '' @ show_int (retry_after c t))"

text \<open>\<^verbatim>\<open>check_timeout\<close> (lines 52-67).\<close>

definition check_timeout ::
  "params \<Rightarrow> nat \<Rightarrow> SequenceDispatcher \<Rightarrow> error + SequenceDispatcher" where
  "check_timeout c pos s =
     (if \<not> pos < length (data s) then Inl OutOfRange
      else let d = data s ! pos in
        if state d \<noteq> Start then Inr s
        else case query d of
          None \<Rightarrow> Inl NullDeref
        | Some q \<Rightarrow>
            let q1 = q\<lparr>query_total_timeout :=
                         double_add c (query_total_timeout q) (total_timeout d)\<rparr>;
                d1 = d\<lparr>query := Some q1, total_timeout := 0\<rparr>
            in if query_total_timeout q1 > query_total_timeout_limit q1
               then try_resend_query pos (set_error (too_many_requests c (last_timeout d1)) q1)
                      (set_data pos (d1\<lparr>state := Dummy, query := None\<rparr>) s)
               else Inr (set_data pos d1 s))"

text \<open>\<^verbatim>\<open>data_from_token\<close> (lines 87-97): the position it resolves, and the state after.\<close>

definition data_from_token ::
  "nat \<Rightarrow> SequenceDispatcher \<Rightarrow> error + (nat \<times> SequenceDispatcher)" where
  "data_from_token token s =
     (if token < id_offset s then Inl CheckFailed
      else let pos = token - id_offset s in
        if \<not> pos < length (data s) then Inl CheckFailed
        else if state (data s ! pos) \<noteq> Wait then Inl CheckFailed
        else if \<not> wait_cnt s > 0 then Inl CheckFailed
        else Inr (pos, (set_data pos ((data s ! pos)\<lparr>state := Dummy\<rparr>) s)
                          \<lparr>wait_cnt := wait_cnt s - 1\<rparr>))"

text \<open>\<^verbatim>\<open>do_resend\<close> (lines 112-121).\<close>

definition do_resend ::
  "params \<Rightarrow> nat \<Rightarrow> SequenceDispatcher \<Rightarrow> error + SequenceDispatcher" where
  "do_resend c pos s =
     (if \<not> pos < length (data s) then Inl OutOfRange
      else if state (data s ! pos) \<noteq> Dummy then Inl CheckFailed
      else let s1 = set_data pos ((data s ! pos)\<lparr>state := Start\<rparr>) s;
               s2 = (if data_generation (data s ! pos) = generation s
                     then s1\<lparr>next_i := finish_i s1,
                             generation := generation s1 + 1,
                             last_sent_i := None\<rparr>
                     else s1)
           in check_timeout c pos s2)"

text \<open>\<^verbatim>\<open>do_finish\<close> (lines 123-129).\<close>

definition do_finish :: "nat \<Rightarrow> SequenceDispatcher \<Rightarrow> error + SequenceDispatcher" where
  "do_finish pos s =
     (if \<not> pos < length (data s) then Inl OutOfRange
      else if state (data s ! pos) \<noteq> Dummy then Inl CheckFailed
      else let s1 = set_data pos ((data s ! pos)\<lparr>state := Finish\<rparr>) s
           in Inr (if parent s1 \<noteq> None then s1\<lparr>outbox := outbox s1 @ [ParentOnResult]\<rparr> else s1))"

text \<open>
  The flood-timeout loop of \<^verbatim>\<open>on_result\<close> (lines 137-141), from position \<open>i\<close> on;
  \<open>t\<close> is the returned query's \<^verbatim>\<open>last_timeout_\<close>.
\<close>

definition add_timeout ::
  "params \<Rightarrow> nat \<Rightarrow> real \<Rightarrow> SequenceDispatcher \<Rightarrow> SequenceDispatcher" where
  "add_timeout c i t s =
     set_data i ((data s ! i)\<lparr>total_timeout := double_add c (total_timeout (data s ! i)) t,
                                last_timeout := t\<rparr>) s"

lemma length_try_resend_query:
  "try_resend_query pos q s = Inr s' \<Longrightarrow> length (data s') = length (data s)"
  by (auto simp: try_resend_query_def set_data_def split: if_splits)

lemma length_check_timeout:
  "check_timeout c pos s = Inr s' \<Longrightarrow> length (data s') = length (data s)"
  by (auto simp: check_timeout_def Let_def set_data_def
      split: if_splits option.splits dest!: length_try_resend_query)

function propagate_timeout ::
  "params \<Rightarrow> nat \<Rightarrow> real \<Rightarrow> SequenceDispatcher \<Rightarrow> error + SequenceDispatcher" where
  "propagate_timeout c i t s =
     (if i < length (data s)
      then (case check_timeout c i (add_timeout c i t s) of
              Inl e \<Rightarrow> Inl e
            | Inr s1 \<Rightarrow> propagate_timeout c (i + 1) t s1)
      else Inr s)"
  by pat_completeness auto
termination
proof (relation "measure (\<lambda>(c, i, t, s). length (data s) - i)")
  show "wf (measure (\<lambda>(c, i, t, s). length (data s) - i))"
    by simp
next
  fix c :: params and i :: nat and t :: real and s s1 :: SequenceDispatcher
  assume "i < length (data s)" and "check_timeout c i (add_timeout c i t s) = Inr s1"
  then show "((c, i + 1, t, s1), (c, i, t, s))
               \<in> measure (\<lambda>(c, i, t, s). length (data s) - i)"
    by (auto dest!: length_check_timeout simp: add_timeout_def set_data_def)
qed

declare propagate_timeout.simps [simp del]

text \<open>The first loop of \<^verbatim>\<open>loop\<close> (lines 159-160).\<close>

function skip_finished :: "SequenceDispatcher \<Rightarrow> SequenceDispatcher" where
  "skip_finished s =
     (if finish_i s < length (data s) \<and> state (data s ! finish_i s) = Finish
      then skip_finished (s\<lparr>finish_i := finish_i s + 1\<rparr>)
      else s)"
  by pat_completeness auto
termination
  by (relation "measure (\<lambda>s. length (data s) - finish_i s)") auto

declare skip_finished.simps [simp del]

text \<open>
  The body of the second loop of \<^verbatim>\<open>loop\<close> for a node that is sent (lines 169-189),
  without the increment of \<^verbatim>\<open>next_i_\<close>.
\<close>

definition send_query :: "SequenceDispatcher \<Rightarrow> error + SequenceDispatcher" where
  "send_query s =
     (let i = next_i s in
      if \<not> i < length (data s) then Inl OutOfRange
      else case (case last_sent_i s of
                   None \<Rightarrow> Inr None
                 | Some l \<Rightarrow>
                     if \<not> l < length (data s) then Inl OutOfRange
                     else if state (data s ! l) = Wait then Inr (net_query_ref (data s ! l))
                     else Inr None) of
        Inl e \<Rightarrow> Inl e
      | Inr invoke_after \<Rightarrow>
          (case query (data s ! i) of
             None \<Rightarrow> Inl NullDeref
           | Some q \<Rightarrow>
               let q1 = q\<lparr>query_invoke_after :=
                            (if invoke_after \<noteq> None then [invoke_after] else [])\<rparr>;
                   q2 = q1\<lparr>query_last_timeout := 0\<rparr>;
                   q3 = q2\<lparr>query_session_rand := session_rand s\<rparr>;
                   d = (data s ! i)\<lparr>query := None, state := Wait,
                                      data_generation := generation s\<rparr>
               in Inr ((set_data i d s)
                         \<lparr>outbox := outbox s @ [DispatchWithCallback q3 (i + id_offset s)],
                          wait_cnt := wait_cnt s + 1,
                          last_sent_i := Some i\<rparr>)))"

lemma length_send_query: "send_query s = Inr s' \<Longrightarrow> length (data s') = length (data s)"
  by (auto simp: send_query_def Let_def set_data_def split: if_splits option.splits sum.splits)

lemma next_i_send_query: "send_query s = Inr s' \<Longrightarrow> next_i s' = next_i s"
  by (auto simp: send_query_def Let_def set_data_def split: if_splits option.splits sum.splits)

text \<open>The second loop of \<^verbatim>\<open>loop\<close> (lines 164-190).\<close>

function send_queries :: "params \<Rightarrow> SequenceDispatcher \<Rightarrow> error + SequenceDispatcher" where
  "send_queries c s =
     (if next_i s < length (data s) \<and> state (data s ! next_i s) \<noteq> Wait
           \<and> wait_cnt s < MAX_SIMULTANEOUS_WAIT c
      then if state (data s ! next_i s) = Finish
           then send_queries c (s\<lparr>next_i := next_i s + 1\<rparr>)
           else (case send_query s of
                   Inl e \<Rightarrow> Inl e
                 | Inr s1 \<Rightarrow> send_queries c (s1\<lparr>next_i := next_i s1 + 1\<rparr>))
      else Inr s)"
  by pat_completeness auto
termination
proof (relation "measure (\<lambda>(c, s). length (data s) - next_i s)")
  show "wf (measure (\<lambda>(c, s). length (data s) - next_i s))"
    by simp
next
  fix c :: params and s :: SequenceDispatcher
  assume "next_i s < length (data s) \<and> state (data s ! next_i s) \<noteq> Wait
            \<and> wait_cnt s < MAX_SIMULTANEOUS_WAIT c"
  then show "((c, s\<lparr>next_i := next_i s + 1\<rparr>), (c, s))
               \<in> measure (\<lambda>(c, s). length (data s) - next_i s)"
    by auto
next
  fix c :: params and s s1 :: SequenceDispatcher
  assume "next_i s < length (data s) \<and> state (data s ! next_i s) \<noteq> Wait
            \<and> wait_cnt s < MAX_SIMULTANEOUS_WAIT c"
    and sent: "send_query s = Inr s1"
  then have "next_i s < length (data s)"
    by simp
  moreover have "length (data s1) = length (data s)" and "next_i s1 = next_i s"
    using sent by (rule length_send_query, rule next_i_send_query)
  ultimately show "((c, s1\<lparr>next_i := next_i s1 + 1\<rparr>), (c, s))
               \<in> measure (\<lambda>(c, s). length (data s) - next_i s)"
    by simp
qed

declare send_queries.simps [simp del]

text \<open>\<^verbatim>\<open>try_shrink\<close> (lines 199-214).\<close>

definition try_shrink :: "SequenceDispatcher \<Rightarrow> error + SequenceDispatcher" where
  "try_shrink s =
     (if finish_i s * 2 > length (data s) \<and> length (data s) > 5
      then if \<not> finish_i s \<le> next_i s then Inl CheckFailed
           else Inr (s\<lparr>data := drop (finish_i s) (data s),
                       next_i := next_i s - finish_i s,
                       last_sent_i :=
                         (case last_sent_i s of
                            None \<Rightarrow> None
                          | Some l \<Rightarrow> if l \<ge> finish_i s then Some (l - finish_i s) else None),
                       id_offset := id_offset s + finish_i s,
                       finish_i := 0\<rparr>)
      else Inr s)"

text \<open>\<^verbatim>\<open>loop\<close> (lines 158-197).\<close>

definition loop :: "params \<Rightarrow> SequenceDispatcher \<Rightarrow> error + SequenceDispatcher" where
  "loop c s =
     (let s1 = skip_finished s;
          s2 = (if next_i s1 < finish_i s1 then s1\<lparr>next_i := finish_i s1\<rparr> else s1)
      in case send_queries c s2 of
           Inl e \<Rightarrow> Inl e
         | Inr s3 \<Rightarrow>
             (case try_shrink s3 of
                Inl e \<Rightarrow> Inl e
              | Inr s4 \<Rightarrow>
                  Inr (if finish_i s4 = length (data s4) \<and> parent s4 \<noteq> None
                       then s4\<lparr>timeout_in := Some 5\<rparr> else s4)))"

text \<open>\<^verbatim>\<open>send_with_callback\<close> (lines 44-50).\<close>

definition send_with_callback ::
  "params \<Rightarrow> NetQuery \<Rightarrow> callback_ref \<Rightarrow> SequenceDispatcher \<Rightarrow> error + SequenceDispatcher" where
  "send_with_callback c q cb s =
     loop c (s\<lparr>timeout_in := None,
               data := data s @
                 [\<lparr>state = Start, net_query_ref = get_weak q, query = Some q, callback = cb,
                   data_generation = 0, total_timeout = 0, last_timeout = 0\<rparr>]\<rparr>)"

text \<open>
  \<^verbatim>\<open>on_result\<close> (lines 131-156); \<open>token\<close> is the link token of the message.
\<close>

definition is_resend_error :: "params \<Rightarrow> NetQuery \<Rightarrow> bool" where
  "is_resend_error c q =
     (case query_error q of
        None \<Rightarrow> False
      | Some (code, message) \<Rightarrow>
          code = ResendInvokeAfter c \<or>
          (code = 400 \<and> (message = ''MSG_WAIT_FAILED'' \<or> message = ''MSG_WAIT_TIMEOUT'')))"

definition on_result ::
  "params \<Rightarrow> nat \<Rightarrow> NetQuery \<Rightarrow> SequenceDispatcher \<Rightarrow> error + SequenceDispatcher" where
  "on_result c token q s =
     (case data_from_token token s of
        Inl e \<Rightarrow> Inl e
      | Inr (pos, s1) \<Rightarrow>
          (case (if query_last_timeout q \<noteq> 0
                 then propagate_timeout c (pos + 1) (query_last_timeout q) s1
                 else Inr s1) of
             Inl e \<Rightarrow> Inl e
           | Inr s2 \<Rightarrow>
               (case (if is_resend_error c q
                      then do_resend c pos
                             (set_data pos ((data s2 ! pos)\<lparr>query := Some (resend c q)\<rparr>) s2)
                      else try_resend_query pos q s2) of
                  Inl e \<Rightarrow> Inl e
                | Inr s3 \<Rightarrow> loop c s3)))"

text \<open>\<^verbatim>\<open>on_resend_ok\<close> and \<^verbatim>\<open>on_resend_error\<close> (lines 99-110).\<close>

definition on_resend_ok ::
  "params \<Rightarrow> nat \<Rightarrow> NetQuery \<Rightarrow> SequenceDispatcher \<Rightarrow> error + SequenceDispatcher" where
  "on_resend_ok c token q s =
     (case data_from_token token s of
        Inl e \<Rightarrow> Inl e
      | Inr (pos, s1) \<Rightarrow>
          (case do_resend c pos (set_data pos ((data s1 ! pos)\<lparr>query := Some q\<rparr>) s1) of
             Inl e \<Rightarrow> Inl e
           | Inr s2 \<Rightarrow> loop c s2))"

definition on_resend_error ::
  "params \<Rightarrow> nat \<Rightarrow> SequenceDispatcher \<Rightarrow> error + SequenceDispatcher" where
  "on_resend_error c token s =
     (case data_from_token token s of
        Inl e \<Rightarrow> Inl e
      | Inr (pos, s1) \<Rightarrow>
          (case do_finish pos s1 of
             Inl e \<Rightarrow> Inl e
           | Inr s2 \<Rightarrow> loop c s2))"

text \<open>\<^verbatim>\<open>timeout_expired\<close> (lines 216-224).\<close>

definition timeout_expired :: "SequenceDispatcher \<Rightarrow> error + SequenceDispatcher" where
  "timeout_expired s =
     (if finish_i s \<noteq> length (data s) then Inr s
      else if parent s = None then Inl CheckFailed
      else Inr (s\<lparr>timeout_in := Some 1, outbox := outbox s @ [ParentReadyToClose]\<rparr>))"

text \<open>
  \<^verbatim>\<open>tear_down\<close> (lines 230-239): the range-for over \<^verbatim>\<open>data_\<close>, as a recursion over
  the positions still to visit.
\<close>

fun tear_down_from ::
  "params \<Rightarrow> nat list \<Rightarrow> SequenceDispatcher \<Rightarrow> error + SequenceDispatcher" where
  "tear_down_from c [] s = Inr s"
| "tear_down_from c (i # rest) s =
     (case query (data s ! i) of
        None \<Rightarrow> tear_down_from c rest s
      | Some q \<Rightarrow>
          (case do_finish i
                  (set_data i ((data s ! i)\<lparr>state := Dummy,
                     query := Some (set_error (request_aborted_error c) q)\<rparr>) s) of
             Inl e \<Rightarrow> Inl e
           | Inr s1 \<Rightarrow> tear_down_from c rest s1))"

definition tear_down :: "params \<Rightarrow> SequenceDispatcher \<Rightarrow> error + SequenceDispatcher" where
  "tear_down c s = tear_down_from c [0..<length (data s)] s"


text \<open>The number of nodes in Finish at the head of the queue.\<close>

definition leading_finish :: "SequenceDispatcher \<Rightarrow> nat" where
  "leading_finish s = length (takeWhile (\<lambda>d. state d = Finish) (data s))"

section \<open>Events and runs\<close>

text \<open>
  The messages the actor handles between two moments of rest. The link token of a
  transport result or of a fulfilled resend promise comes with the message.
\<close>

datatype event =
    SendWithCallback NetQuery callback_ref
  | OnResult nat NetQuery
  | OnResendOk nat NetQuery
  | OnResendError nat
  | TimeoutExpired

fun handle :: "params \<Rightarrow> event \<Rightarrow> SequenceDispatcher \<Rightarrow> error + SequenceDispatcher" where
  "handle c (SendWithCallback q cb) s = send_with_callback c q cb s"
| "handle c (OnResult token q) s = on_result c token q s"
| "handle c (OnResendOk token q) s = on_resend_ok c token q s"
| "handle c (OnResendError token) s = on_resend_error c token s"
| "handle c TimeoutExpired s = timeout_expired s"

fun run :: "params \<Rightarrow> event list \<Rightarrow> SequenceDispatcher \<Rightarrow> error + SequenceDispatcher" where
  "run c [] s = Inr s"
| "run c (e # es) s =
     (case handle c e s of Inl err \<Rightarrow> Inl err | Inr s1 \<Rightarrow> run c es s1)"

text \<open>
  Modelled from the spec: the class declaration with the members' initial values is not in
  the sources. A new dispatcher has an empty queue, no waiting query, no timer and an
  undefined \<open>last_sent_i\<close>; the first token offset and the first generation are arguments.
\<close>

definition new_dispatcher ::
  "nat option \<Rightarrow> 32 word \<Rightarrow> nat \<Rightarrow> nat \<Rightarrow> SequenceDispatcher" where
  "new_dispatcher p r off g =
     \<lparr>parent = p, id_offset = off, data = [], finish_i = 0, next_i = 0, last_sent_i = None,
      generation = g, session_rand = r, wait_cnt = 0, timeout_in = None, outbox = []\<rparr>"

section \<open>Invariants of the dispatcher\<close>

definition count_wait :: "Data list \<Rightarrow> nat" where
  "count_wait ds = length (filter (\<lambda>d. state d = Wait) ds)"

text \<open>
  A node owns its query exactly while the query is neither at the transport nor at the
  callback: in Start it does, in Wait and Finish it does not. Its weak reference is set.
\<close>

definition node_ok :: "Data \<Rightarrow> bool" where
  "node_ok d =
     ((state d = Start \<longrightarrow> query d \<noteq> None)
      \<and> (state d = Wait \<or> state d = Finish \<longrightarrow> query d = None)
      \<and> net_query_ref d \<noteq> None)"

text \<open>What holds between any two steps of a handler.\<close>

definition inv_step :: "SequenceDispatcher \<Rightarrow> bool" where
  "inv_step s =
     (wait_cnt s = count_wait (data s)
      \<and> finish_i s \<le> length (data s)
      \<and> (\<forall>i < finish_i s. state (data s ! i) = Finish)
      \<and> (\<forall>i < length (data s). node_ok (data s ! i))
      \<and> (\<forall>l. last_sent_i s = Some l \<longrightarrow> l < length (data s)))"

text \<open>What holds at rest: in addition, no node is in Dummy.\<close>

definition inv_rest :: "SequenceDispatcher \<Rightarrow> bool" where
  "inv_rest s = (inv_step s \<and> (\<forall>i < length (data s). state (data s ! i) \<noteq> Dummy))"

text \<open>A step that creates no node in Dummy and keeps the size of the queue.\<close>

definition no_new_dummy :: "SequenceDispatcher \<Rightarrow> SequenceDispatcher \<Rightarrow> bool" where
  "no_new_dummy s s' =
     (length (data s') = length (data s)
      \<and> (\<forall>i < length (data s). state (data s' ! i) = Dummy \<longrightarrow> state (data s ! i) = Dummy))"

text \<open>The number of nodes that own their query.\<close>

definition count_owned :: "Data list \<Rightarrow> nat" where
  "count_owned ds = length (filter (\<lambda>d. query d \<noteq> None) ds)"

section \<open>MultiSequenceDispatcherOld\<close>

text \<open>
  One child \<^verbatim>\<open>SequenceDispatcher\<close> per sequence id, with the count of the queries it has
  been given and has not reported. \<^verbatim>\<open>dispatchers_\<close> is a map from the 64-bit sequence id;
  an \<^verbatim>\<open>ActorOwn\<close> is the number of the child actor, in the order of creation. The count is
  an integer (its C++ type is declared in the header, which is not in the sources).
\<close>

record multi_data =
  cnt :: int
  dispatcher :: nat

datatype multi_effect =
    CreateSequenceDispatcher nat "64 word"
  | ChildSendWithCallback nat NetQuery callback_ref
  | DestroySequenceDispatcher nat

record MultiSequenceDispatcherOld =
  dispatchers :: "64 word \<rightharpoonup> multi_data"
  actors_created :: nat
  multi_outbox :: "multi_effect list"

definition new_multi_old :: MultiSequenceDispatcherOld where
  "new_multi_old = \<lparr>dispatchers = Map.empty, actors_created = 0, multi_outbox = []\<rparr>"

text \<open>\<^verbatim>\<open>MultiSequenceDispatcherOld::send_with_callback\<close> (lines 251-266).\<close>

definition send_with_callback_old ::
  "NetQuery \<Rightarrow> callback_ref \<Rightarrow> 64 word list \<Rightarrow> MultiSequenceDispatcherOld
     \<Rightarrow> error + MultiSequenceDispatcherOld" where
  "send_with_callback_old q cb chain_ids m =
     (if \<not> list_all (\<lambda>chain_id. chain_id \<noteq> 0) chain_ids then Inl CheckFailed
      else if chain_ids = [] then Inl CheckFailed
      else let sequence_id = chain_ids ! 0;
               m1 = (case dispatchers m sequence_id of
                       Some d \<Rightarrow> m
                     | None \<Rightarrow>
                         m\<lparr>dispatchers := (dispatchers m)(sequence_id \<mapsto>
                              \<lparr>cnt = 0, dispatcher = actors_created m\<rparr>),
                           actors_created := actors_created m + 1,
                           multi_outbox := multi_outbox m @
                             [CreateSequenceDispatcher (actors_created m) sequence_id]\<rparr>)
           in case dispatchers m1 sequence_id of
                None \<Rightarrow> Inl NullDeref
              | Some d \<Rightarrow>
                  Inr (m1\<lparr>dispatchers := (dispatchers m1)(sequence_id \<mapsto> d\<lparr>cnt := cnt d + 1\<rparr>),
                          multi_outbox := multi_outbox m1 @
                            [ChildSendWithCallback (dispatcher d) q cb]\<rparr>))"

text \<open>\<^verbatim>\<open>MultiSequenceDispatcherOld::on_result\<close> (lines 268-272).\<close>

definition on_result_old ::
  "64 word \<Rightarrow> MultiSequenceDispatcherOld \<Rightarrow> error + MultiSequenceDispatcherOld" where
  "on_result_old token m =
     (case dispatchers m token of
        None \<Rightarrow> Inl CheckFailed
      | Some d \<Rightarrow> Inr (m\<lparr>dispatchers := (dispatchers m)(token \<mapsto> d\<lparr>cnt := cnt d - 1\<rparr>)\<rparr>))"

text \<open>\<^verbatim>\<open>MultiSequenceDispatcherOld::ready_to_close\<close> (lines 274-281).\<close>

definition ready_to_close ::
  "64 word \<Rightarrow> MultiSequenceDispatcherOld \<Rightarrow> error + MultiSequenceDispatcherOld" where
  "ready_to_close token m =
     (case dispatchers m token of
        None \<Rightarrow> Inl CheckFailed
      | Some d \<Rightarrow>
          if cnt d = 0
          then Inr (m\<lparr>dispatchers := (dispatchers m)(token := None),
                      multi_outbox := multi_outbox m @ [DestroySequenceDispatcher (dispatcher d)]\<rparr>)
          else Inr m)"

text \<open>The messages of the old multi-chain dispatcher, and a run of them.\<close>

datatype multi_event =
    Submit NetQuery callback_ref "64 word list"
  | ChildOnResult "64 word"
  | ChildReadyToClose "64 word"

fun multi_handle ::
  "multi_event \<Rightarrow> MultiSequenceDispatcherOld \<Rightarrow> error + MultiSequenceDispatcherOld" where
  "multi_handle (Submit q cb chain_ids) m = send_with_callback_old q cb chain_ids m"
| "multi_handle (ChildOnResult token) m = on_result_old token m"
| "multi_handle (ChildReadyToClose token) m = ready_to_close token m"

fun multi_run ::
  "multi_event list \<Rightarrow> MultiSequenceDispatcherOld \<Rightarrow> error + MultiSequenceDispatcherOld" where
  "multi_run [] m = Inr m"
| "multi_run (e # es) m =
     (case multi_handle e m of Inl err \<Rightarrow> Inl err | Inr m1 \<Rightarrow> multi_run es m1)"

text \<open>
  The count kept for a sequence id (0 when there is no child), and, in a list of messages,
  the submissions routed to the id and the results its child has reported.
\<close>

definition cnt_of :: "MultiSequenceDispatcherOld \<Rightarrow> 64 word \<Rightarrow> int" where
  "cnt_of m k = (case dispatchers m k of None \<Rightarrow> 0 | Some d \<Rightarrow> cnt d)"

fun routed_to :: "64 word \<Rightarrow> multi_event \<Rightarrow> bool" where
  "routed_to k (Submit q cb chain_ids) = (chain_ids \<noteq> [] \<and> chain_ids ! 0 = k)"
| "routed_to k (ChildOnResult token) = False"
| "routed_to k (ChildReadyToClose token) = False"

definition submitted :: "multi_event list \<Rightarrow> 64 word \<Rightarrow> nat" where
  "submitted es k = length (filter (routed_to k) es)"

definition reported :: "multi_event list \<Rightarrow> 64 word \<Rightarrow> nat" where
  "reported es k = length (filter (\<lambda>e. e = ChildOnResult k) es)"

section \<open>MultiSequenceDispatcherNewImpl\<close>

text \<open>The payload of a task (\<^verbatim>\<open>MultiSequenceDispatcherNewImpl::Node\<close>, lines 300-307).\<close>

record Node =
  node_net_query_ref :: NetQueryRef
  node_net_query :: "NetQuery option"
  node_callback :: callback_ref

text \<open>
  \<^verbatim>\<open>ChainScheduler\<close> is not in the sources: its operations are parameters, over any type
  \<open>'c\<close> of scheduler states. An operation that can fail a check of its own returns a sum;
  \<open>get_task_extra\<close> returns no node for a null pointer, and \<open>set_task_extra\<close> stands for
  the writes through the pointer it returns.
\<close>

record 'c scheduler_ops =
  create_task :: "64 word list \<Rightarrow> Node \<Rightarrow> 'c \<Rightarrow> error + 'c"
  get_task_extra :: "nat \<Rightarrow> 'c \<Rightarrow> Node option"
  set_task_extra :: "nat \<Rightarrow> Node \<Rightarrow> 'c \<Rightarrow> 'c"
  finish_task :: "nat \<Rightarrow> 'c \<Rightarrow> error + 'c"
  reset_task :: "nat \<Rightarrow> 'c \<Rightarrow> error + 'c"
  start_next_task :: "'c \<Rightarrow> ((nat \<times> nat list) \<times> 'c) option"

record 'c MultiSequenceDispatcherNewImpl =
  scheduler :: 'c
  new_outbox :: "effect list"

text \<open>The inner loop of \<^verbatim>\<open>flush_pending_queries\<close> over the parents (lines 366-371).\<close>

fun parent_refs :: "'c scheduler_ops \<Rightarrow> 'c \<Rightarrow> nat list \<Rightarrow> error + NetQueryRef list" where
  "parent_refs ops sc [] = Inr []"
| "parent_refs ops sc (parent_id # rest) =
     (case get_task_extra ops parent_id sc of
        None \<Rightarrow> Inl NullDeref
      | Some parent_node \<Rightarrow>
          if node_net_query_ref parent_node = None then Inl CheckFailed
          else (case parent_refs ops sc rest of
                  Inl e \<Rightarrow> Inl e
                | Inr refs \<Rightarrow> Inr (node_net_query_ref parent_node # refs)))"

text \<open>
  \<^verbatim>\<open>flush_pending_queries\<close> (lines 355-379), which is all of \<^verbatim>\<open>loop\<close>. The
  \<^verbatim>\<open>while (true)\<close> ends when the scheduler has no task to start; a run that never ends
  is the value \<open>None\<close>.
\<close>

partial_function (option) flush_pending_queries ::
  "'c scheduler_ops \<Rightarrow> 'c MultiSequenceDispatcherNewImpl
     \<Rightarrow> (error + 'c MultiSequenceDispatcherNewImpl) option" where
  "flush_pending_queries ops m =
     (case start_next_task ops (scheduler m) of
        None \<Rightarrow> Some (Inr m)
      | Some ((task_id, parents), sc1) \<Rightarrow>
          (case get_task_extra ops task_id sc1 of
             None \<Rightarrow> Some (Inl NullDeref)
           | Some node \<Rightarrow>
               (case node_net_query node of
                  None \<Rightarrow> Some (Inl CheckFailed)
                | Some q \<Rightarrow>
                    (case parent_refs ops
                            (set_task_extra ops task_id (node\<lparr>node_net_query := None\<rparr>) sc1)
                            parents of
                       Inl e \<Rightarrow> Some (Inl e)
                     | Inr refs \<Rightarrow>
                         flush_pending_queries ops
                           (m\<lparr>scheduler :=
                                set_task_extra ops task_id (node\<lparr>node_net_query := None\<rparr>) sc1,
                              new_outbox := new_outbox m @
                                [DispatchWithCallback
                                   (q\<lparr>query_invoke_after := refs, query_last_timeout := 0\<rparr>)
                                   task_id]\<rparr>)))))"

text \<open>\<^verbatim>\<open>MultiSequenceDispatcherNewImpl::send_with_callback\<close> (lines 285-297).\<close>

definition new_node :: "NetQuery \<Rightarrow> callback_ref \<Rightarrow> 64 word list \<Rightarrow> Node" where
  "new_node q cb chain_ids =
     (let q1 = (if chain_ids \<noteq> []
                then q\<lparr>query_session_rand := ucast (drop_bit 10 (chain_ids ! 0))\<rparr> else q)
      in \<lparr>node_net_query_ref = get_weak q1, node_net_query = Some q1, node_callback = cb\<rparr>)"

definition send_with_callback_new ::
  "'c scheduler_ops \<Rightarrow> NetQuery \<Rightarrow> callback_ref \<Rightarrow> 64 word list
     \<Rightarrow> 'c MultiSequenceDispatcherNewImpl
     \<Rightarrow> (error + 'c MultiSequenceDispatcherNewImpl) option" where
  "send_with_callback_new ops q cb chain_ids m =
     (if \<not> list_all (\<lambda>chain_id. chain_id \<noteq> 0) chain_ids then Some (Inl CheckFailed)
      else case create_task ops chain_ids (new_node q cb chain_ids) (scheduler m) of
             Inl e \<Rightarrow> Some (Inl e)
           | Inr sc1 \<Rightarrow> flush_pending_queries ops (m\<lparr>scheduler := sc1\<rparr>))"

text \<open>
  \<^verbatim>\<open>on_resend\<close> (lines 327-339); the argument is the \<^verbatim>\<open>Result<NetQueryPtr>\<close>, an error
  or a query.
\<close>

definition on_resend_new ::
  "'c scheduler_ops \<Rightarrow> nat \<Rightarrow> (int \<times> string) + NetQuery \<Rightarrow> 'c MultiSequenceDispatcherNewImpl
     \<Rightarrow> (error + 'c MultiSequenceDispatcherNewImpl) option" where
  "on_resend_new ops task_id r m =
     (case get_task_extra ops task_id (scheduler m) of
        None \<Rightarrow> Some (Inl NullDeref)
      | Some node \<Rightarrow>
          (case (case r of
                   Inl status \<Rightarrow> finish_task ops task_id (scheduler m)
                 | Inr q \<Rightarrow>
                     reset_task ops task_id
                       (set_task_extra ops task_id
                          (node\<lparr>node_net_query := Some q, node_net_query_ref := get_weak q\<rparr>)
                          (scheduler m))) of
             Inl e \<Rightarrow> Some (Inl e)
           | Inr sc1 \<Rightarrow> flush_pending_queries ops (m\<lparr>scheduler := sc1\<rparr>)))"

text \<open>\<^verbatim>\<open>MultiSequenceDispatcherNewImpl::on_result\<close> (lines 312-325).\<close>

definition on_result_new ::
  "'c scheduler_ops \<Rightarrow> params \<Rightarrow> nat \<Rightarrow> NetQuery \<Rightarrow> 'c MultiSequenceDispatcherNewImpl
     \<Rightarrow> (error + 'c MultiSequenceDispatcherNewImpl) option" where
  "on_result_new ops c task_id q m =
     (case get_task_extra ops task_id (scheduler m) of
        None \<Rightarrow> Some (Inl NullDeref)
      | Some node \<Rightarrow>
          if is_resend_error c q then on_resend_new ops task_id (Inr (resend c q)) m
          else Some (Inr (m\<lparr>new_outbox := new_outbox m @
                                [OnResultResendable (node_callback node) q task_id]\<rparr>)))"

section \<open>ChainScheduler\<close>

text \<open>
  Modelled from the spec: the class template \<^verbatim>\<open>ChainScheduler\<close> is not in the sources.
  The model follows section 4.1 of the specification. A task has a stable id, its position
  in the list of all tasks created; it is Pending until it is released, Active from then
  on, and Finished once it is removed from its chains. \<open>create_task\<close> appends a Pending
  task to each listed chain, and a task with no chains is illegal: the call fails.
  A task is runnable when it is Pending and, on every chain it belongs to, no earlier task
  is Pending. \<open>start_next_task\<close> returns the earliest runnable task, marks it Active, and
  with it, for each of its chains in order, the nearest earlier task of the chain that is
  not Finished, without duplicates. \<open>finish_task\<close> removes the task from every chain,
  \<open>reset_task\<close> makes it Pending again in its place; either on an id that is not the id
  of a live task is a programming error. \<open>get_task_extra\<close> is a null pointer for such
  an id.
\<close>

datatype TaskState = Pending | Active | Finished

record Task =
  task_chains :: "64 word list"
  task_state :: TaskState
  task_extra :: Node

type_synonym ChainScheduler = "Task list"

text \<open>
  Modelled from the spec: a live task is one that has been created and is not Finished.
\<close>

definition live_task :: "ChainScheduler \<Rightarrow> nat \<Rightarrow> bool" where
  "live_task ts i = (i < length ts \<and> task_state (ts ! i) \<noteq> Finished)"

text \<open>
  Modelled from the spec: a task is runnable iff, for every chain it belongs to, every
  earlier task in that chain is either Finished or currently Active, that is, not Pending.
\<close>

definition runnable :: "ChainScheduler \<Rightarrow> nat \<Rightarrow> bool" where
  "runnable ts i =
     (task_state (ts ! i) = Pending
      \<and> list_all (\<lambda>j. task_state (ts ! j) = Pending
                        \<longrightarrow> list_all (\<lambda>ch. ch \<notin> set (task_chains (ts ! j))) (task_chains (ts ! i)))
          [0..<i])"

text \<open>
  Modelled from the spec: the immediate live predecessor of a task on a chain, and the
  parents of a task, one for each of its chains, deduplicated; a predecessor that is
  Finished is left out, one that is Active is included.
\<close>

definition predecessor :: "ChainScheduler \<Rightarrow> nat \<Rightarrow> 64 word \<Rightarrow> nat option" where
  "predecessor ts i ch =
     List.find (\<lambda>j. task_state (ts ! j) \<noteq> Finished \<and> ch \<in> set (task_chains (ts ! j)))
       (rev [0..<i])"

definition parents_of :: "ChainScheduler \<Rightarrow> nat \<Rightarrow> nat list" where
  "parents_of ts i = remdups (List.map_filter (predecessor ts i) (task_chains (ts ! i)))"

text \<open>
  Modelled from the spec: the operations of section 4.1, as the new multi-chain dispatcher
  calls them.
\<close>

definition chain_scheduler :: "ChainScheduler scheduler_ops" where
  "chain_scheduler =
     \<lparr>create_task = (\<lambda>chain_ids node ts.
         if chain_ids = [] then Inl CheckFailed
         else Inr (ts @ [\<lparr>task_chains = chain_ids, task_state = Pending, task_extra = node\<rparr>])),
      get_task_extra = (\<lambda>i ts. if live_task ts i then Some (task_extra (ts ! i)) else None),
      set_task_extra = (\<lambda>i node ts. ts[i := (ts ! i)\<lparr>task_extra := node\<rparr>]),
      finish_task = (\<lambda>i ts.
         if live_task ts i then Inr (ts[i := (ts ! i)\<lparr>task_state := Finished\<rparr>])
         else Inl CheckFailed),
      reset_task = (\<lambda>i ts.
         if live_task ts i then Inr (ts[i := (ts ! i)\<lparr>task_state := Pending\<rparr>])
         else Inl CheckFailed),
      start_next_task = (\<lambda>ts.
         case List.find (runnable ts) [0..<length ts] of
           None \<Rightarrow> None
         | Some i \<Rightarrow> Some ((i, parents_of ts i), ts[i := (ts ! i)\<lparr>task_state := Active\<rparr>]))\<rparr>"






section \<open>Concrete inputs\<close>

text \<open>A query with the given identity, running total and limit, and nothing else set.\<close>

definition mk_query :: "nat \<Rightarrow> real \<Rightarrow> real \<Rightarrow> NetQuery" where
  "mk_query n t lmt =
     \<lparr>query_id = n, query_total_timeout = t, query_total_timeout_limit = lmt,
      query_last_timeout = 0, query_invoke_after = [], query_error = None,
      query_session_rand = 0\<rparr>"

definition q0 :: NetQuery where
  "q0 = mk_query 0 1 2"


text \<open>A node in the given state, with the given weak reference and query.\<close>

definition mk_data :: "State \<Rightarrow> nat \<Rightarrow> NetQuery option \<Rightarrow> Data" where
  "mk_data st n q =
     \<lparr>state = st, net_query_ref = Some n, query = q, callback = 7, data_generation = 1,
      total_timeout = 0, last_timeout = 0\<rparr>"

text \<open>
  The conversion of a double to a 32-bit integer as an x86-64 processor does it
  (\<^verbatim>\<open>cvttsd2si\<close>): the truncation where it fits, the smallest 32-bit integer elsewhere.
\<close>

definition cvttsd2si :: "real \<Rightarrow> 32 word" where
  "cvttsd2si x =
     (if - 2147483649 < x \<and> x < 2147483648 then word_of_int (truncate_real x)
      else word_of_int (- 2147483648))"

text \<open>
  The cap of 10 that the spec recommends; the other parameters are arbitrary values. The
  numbers of the examples and their sums are doubles, so the rounding of the examples
  leaves a number as it is.
\<close>

definition example_params :: params where
  "example_params =
     \<lparr>MAX_SIMULTANEOUS_WAIT = 10, ResendInvokeAfter = 204,
      request_aborted_error = (500, ''Request aborted''),
      resend = (\<lambda>q. q\<lparr>query_error := None\<rparr>),
      round_double = (\<lambda>x. x),
      static_cast_int32 = cvttsd2si\<rparr>"


text \<open>The first node is sent and waits; the loop stands at the second, in Start.\<close>

definition st1 :: SequenceDispatcher where
  "st1 =
     \<lparr>parent = None, id_offset = 1,
      data = [mk_data Wait 0 None, mk_data Start 1 (Some (mk_query 1 0 2))],
      finish_i = 0, next_i = 1, last_sent_i = Some 0, generation = 1, session_rand = 5,
      wait_cnt = 1, timeout_in = None, outbox = []\<rparr>"

text \<open>
  Six nodes, the first four in Finish, and the state that \<^verbatim>\<open>try_shrink\<close> makes of it.
\<close>

definition st5 :: SequenceDispatcher where
  "st5 =
     \<lparr>parent = None, id_offset = 1,
      data = [mk_data Finish 0 None, mk_data Finish 1 None, mk_data Finish 2 None,
              mk_data Finish 3 None, mk_data Wait 4 None,
              mk_data Start 5 (Some (mk_query 5 0 2))],
      finish_i = 4, next_i = 5, last_sent_i = Some 4, generation = 1, session_rand = 5,
      wait_cnt = 1, timeout_in = None, outbox = []\<rparr>"

definition st5' :: SequenceDispatcher where
  "st5' =
     \<lparr>parent = None, id_offset = 5,
      data = [mk_data Wait 4 None, mk_data Start 5 (Some (mk_query 5 0 2))],
      finish_i = 0, next_i = 1, last_sent_i = Some 0, generation = 1, session_rand = 5,
      wait_cnt = 1, timeout_in = None, outbox = []\<rparr>"

text \<open>
  Twelve submissions with a limit of 2 on the total timeout, then the result of the first
  query with a flood timeout of 5.
\<close>

definition flood_events :: "event list" where
  "flood_events =
     map (\<lambda>n. SendWithCallback (mk_query n 0 2) 7) [0..<12]
     @ [OnResult 1 ((mk_query 0 0 2)\<lparr>query_last_timeout := 5\<rparr>)]"

text \<open>
  Twelve queries in the queue, none sent; and ten nodes waiting at the cap of 10, with an
  eleventh node in Dummy at position 11, behind a node in Start.
\<close>

definition st_twelve :: SequenceDispatcher where
  "st_twelve =
     (new_dispatcher None 0 1 1)
       \<lparr>data := map (\<lambda>n. mk_data Start n (Some (mk_query n 0 2))) [0..<12]\<rparr>"

definition st_eleven :: SequenceDispatcher where
  "st_eleven =
     \<lparr>parent = None, id_offset = 1,
      data = map (\<lambda>n. mk_data Wait n None) [0..<10]
             @ [mk_data Start 10 (Some (mk_query 10 0 2)), mk_data Dummy 11 None],
      finish_i = 0, next_i = 10, last_sent_i = Some 9, generation = 1, session_rand = 0,
      wait_cnt = 10, timeout_in = None, outbox = []\<rparr>"

text \<open>One query, submitted and sent: the node waits for the transport.\<close>

definition st_sent :: SequenceDispatcher where
  "st_sent =
     \<lparr>parent = Some 3, id_offset = 1,
      data = [\<lparr>state = Wait, net_query_ref = Some 0, query = None, callback = 7,
               data_generation = 1, total_timeout = 0, last_timeout = 0\<rparr>],
      finish_i = 0, next_i = 1, last_sent_i = Some 0, generation = 1, session_rand = 0,
      wait_cnt = 1, timeout_in = None,
      outbox = [DispatchWithCallback (mk_query 0 0 2) 1]\<rparr>"

text \<open>Two queries submitted with the cap at one: the first waits, the second is in Start.\<close>

definition one_at_a_time :: params where
  "one_at_a_time = example_params\<lparr>MAX_SIMULTANEOUS_WAIT := 1\<rparr>"

definition two_events :: "event list" where
  "two_events = [SendWithCallback (mk_query 0 0 2) 7, SendWithCallback (mk_query 1 0 2) 8]"

definition st_two :: SequenceDispatcher where
  "st_two =
     \<lparr>parent = Some 3, id_offset = 1,
      data = [\<lparr>state = Wait, net_query_ref = Some 0, query = None, callback = 7,
               data_generation = 1, total_timeout = 0, last_timeout = 0\<rparr>,
              \<lparr>state = Start, net_query_ref = Some 1, query = Some (mk_query 1 0 2),
               callback = 8, data_generation = 0, total_timeout = 0, last_timeout = 0\<rparr>],
      finish_i = 0, next_i = 1, last_sent_i = Some 0, generation = 1, session_rand = 0,
      wait_cnt = 1, timeout_in = None,
      outbox = [DispatchWithCallback (mk_query 0 0 2) 1]\<rparr>"

text \<open>
  A node back from the transport, in Dummy with its query restored, sent in the current
  generation.
\<close>

definition st_back :: SequenceDispatcher where
  "st_back =
     \<lparr>parent = None, id_offset = 1,
      data = [mk_data Dummy 0 (Some (mk_query 0 0 2)), mk_data Wait 1 None],
      finish_i = 0, next_i = 2, last_sent_i = Some 1, generation = 1, session_rand = 0,
      wait_cnt = 1, timeout_in = None, outbox = []\<rparr>"

text \<open>Three nodes waiting and one in Start; the token 1 is the first node's.\<close>

definition st_four :: SequenceDispatcher where
  "st_four =
     \<lparr>parent = None, id_offset = 1,
      data = [mk_data Wait 0 None, mk_data Wait 1 None, mk_data Wait 2 None,
              mk_data Start 3 (Some (mk_query 3 0 2))],
      finish_i = 0, next_i = 3, last_sent_i = Some 2, generation = 1, session_rand = 0,
      wait_cnt = 3, timeout_in = None, outbox = []\<rparr>"


definition multi_one :: "ChainScheduler MultiSequenceDispatcherNewImpl" where
  "multi_one =
     \<lparr>scheduler =
        [\<lparr>task_chains = [2048], task_state = Active,
          task_extra = \<lparr>node_net_query_ref = Some 0, node_net_query = None,
                         node_callback = 7\<rparr>\<rparr>],
      new_outbox = [DispatchWithCallback (q0\<lparr>query_session_rand := 2\<rparr>) 0]\<rparr>"

text \<open>
  A task on the given chains, in the given state; a Pending task owns a query.
\<close>

definition mk_task :: "64 word list \<Rightarrow> TaskState \<Rightarrow> nat \<Rightarrow> Task" where
  "mk_task chain_ids st n =
     \<lparr>task_chains = chain_ids, task_state = st,
      task_extra = \<lparr>node_net_query_ref = Some n,
                     node_net_query = (if st = Pending then Some (mk_query n 0 2) else None),
                     node_callback = 7\<rparr>\<rparr>"

text \<open>A result without an error and a result with the error 400 \<^verbatim>\<open>MSG_WAIT_FAILED\<close>.\<close>

definition q_ok :: NetQuery where
  "q_ok = mk_query 0 0 2"

definition q_wait_failed :: NetQuery where
  "q_wait_failed = (mk_query 0 0 2)\<lparr>query_error := Some (400, ''MSG_WAIT_FAILED'')\<rparr>"

section \<open>check_timeout\<close>






lemma double_add_example: "double_add example_params x y = x + y"
  by (simp add: double_add_def example_params_def)




section \<open>The dispatch step of loop\<close>

text \<open>
  Claim C1. When the second loop of \<^verbatim>\<open>loop\<close> stands at a node in Start that owns its
  query, and the cap on waiting queries is not reached, the node is sent: the query goes to
  the transport under the token \<open>next_i + id_offset\<close> with its invoke-after set to the weak
  reference of the node at \<open>last_sent_i\<close> when \<open>last_sent_i\<close> is defined and that node is in
  Wait, and to the empty list otherwise, and with its \<open>last_timeout\<close> set to 0. After the
  step the node is in Wait, \<open>wait_cnt\<close> is one more, the node's generation is the current
  one, \<open>last_sent_i\<close> is the node's position, and the loop goes on at the next position.
  The hypotheses hold wherever the loop reaches the step (lemma \<open>send_query_ready\<close>): a
  node in Start owns its query, and the weak reference of a node is never empty.
\<close>

theorem send_query_spec:
  assumes i: "next_i s < length (data s)"
    and start: "state (data s ! next_i s) = Start"
    and q: "query (data s ! next_i s) = Some q"
    and cap: "wait_cnt s < MAX_SIMULTANEOUS_WAIT c"
    and last: "\<forall>l. last_sent_i s = Some l \<longrightarrow>
                 l < length (data s) \<and> net_query_ref (data s ! l) \<noteq> None"
  shows "\<exists>s' q'. send_query s = Inr s'
           \<and> send_queries c s = send_queries c (s'\<lparr>next_i := next_i s + 1\<rparr>)
           \<and> outbox s' = outbox s @ [DispatchWithCallback q' (next_i s + id_offset s)]
           \<and> q' = q\<lparr>query_invoke_after :=
                      (case last_sent_i s of
                         None \<Rightarrow> []
                       | Some l \<Rightarrow> if state (data s ! l) = Wait
                                   then [net_query_ref (data s ! l)] else []),
                    query_last_timeout := 0,
                    query_session_rand := session_rand s\<rparr>
           \<and> state (data s' ! next_i s) = Wait
           \<and> query (data s' ! next_i s) = None
           \<and> wait_cnt s' = wait_cnt s + 1
           \<and> data_generation (data s' ! next_i s) = generation s'
           \<and> generation s' = generation s
           \<and> last_sent_i s' = Some (next_i s)"
proof (cases "last_sent_i s")
  case None
  then have sq: "send_query s = Inr ((set_data (next_i s)
       ((data s ! next_i s)\<lparr>query := None, state := Wait, data_generation := generation s\<rparr>) s)
          \<lparr>outbox := outbox s @ [DispatchWithCallback
              (q\<lparr>query_invoke_after := [], query_last_timeout := 0,
                 query_session_rand := session_rand s\<rparr>) (next_i s + id_offset s)],
           wait_cnt := wait_cnt s + 1, last_sent_i := Some (next_i s)\<rparr>)"
    using i q by (simp add: send_query_def Let_def)
  have "send_queries c s = send_queries c ((set_data (next_i s)
       ((data s ! next_i s)\<lparr>query := None, state := Wait, data_generation := generation s\<rparr>) s)
          \<lparr>outbox := outbox s @ [DispatchWithCallback
              (q\<lparr>query_invoke_after := [], query_last_timeout := 0,
                 query_session_rand := session_rand s\<rparr>) (next_i s + id_offset s)],
           wait_cnt := wait_cnt s + 1, last_sent_i := Some (next_i s)\<rparr>\<lparr>next_i := next_i s + 1\<rparr>)"
    using i start cap by (subst send_queries.simps) (simp add: sq set_data_def)
  with sq None i show ?thesis
    by (simp add: set_data_def)
next
  case (Some l)
  with last have l: "l < length (data s)" and ref: "net_query_ref (data s ! l) \<noteq> None"
    by simp_all
  let ?ia = "if state (data s ! l) = Wait then [net_query_ref (data s ! l)] else []"
  have sq: "send_query s = Inr ((set_data (next_i s)
       ((data s ! next_i s)\<lparr>query := None, state := Wait, data_generation := generation s\<rparr>) s)
          \<lparr>outbox := outbox s @ [DispatchWithCallback
              (q\<lparr>query_invoke_after := ?ia, query_last_timeout := 0,
                 query_session_rand := session_rand s\<rparr>) (next_i s + id_offset s)],
           wait_cnt := wait_cnt s + 1, last_sent_i := Some (next_i s)\<rparr>)"
    using i q Some l ref by (simp add: send_query_def Let_def)
  have "send_queries c s = send_queries c ((set_data (next_i s)
       ((data s ! next_i s)\<lparr>query := None, state := Wait, data_generation := generation s\<rparr>) s)
          \<lparr>outbox := outbox s @ [DispatchWithCallback
              (q\<lparr>query_invoke_after := ?ia, query_last_timeout := 0,
                 query_session_rand := session_rand s\<rparr>) (next_i s + id_offset s)],
           wait_cnt := wait_cnt s + 1, last_sent_i := Some (next_i s)\<rparr>\<lparr>next_i := next_i s + 1\<rparr>)"
    using i start cap by (subst send_queries.simps) (simp add: sq set_data_def)
  with sq Some i show ?thesis
    by (simp add: set_data_def)
qed

theorem send_query_spec_witness:
  "\<exists>s'. send_query st1 = Inr s'
      \<and> outbox s' = [DispatchWithCallback
           ((mk_query 1 0 2)\<lparr>query_invoke_after := [Some 0], query_session_rand := 5\<rparr>) 2]
      \<and> state (data s' ! 1) = Wait \<and> wait_cnt s' = 2
      \<and> data_generation (data s' ! 1) = generation s' \<and> last_sent_i s' = Some 1"
  using send_query_spec [of st1 "mk_query 1 0 2" example_params]
  by (auto simp: st1_def mk_data_def mk_query_def example_params_def)

section \<open>try_shrink\<close>

text \<open>
  Claim C5. \<^verbatim>\<open>loop\<close> calls \<^verbatim>\<open>try_shrink\<close> with \<open>finish_i\<close> at the first node that is
  not in Finish and not behind \<open>next_i\<close> (lemma \<open>loop_calls_try_shrink\<close>), so \<open>finish_i\<close>
  is the number of leading Finish nodes. \<^verbatim>\<open>try_shrink\<close>
  changes nothing unless twice that number exceeds the size of the queue and the size
  exceeds 5. When it compacts, it erases exactly the Finish prefix, subtracts the length of
  the prefix from \<open>next_i\<close> and from a \<open>last_sent_i\<close> that is not inside the prefix (one
  inside becomes undefined), adds it to \<open>id_offset\<close> and resets \<open>finish_i\<close>. The token
  \<open>pos + id_offset\<close> of every node in Wait is resolved by \<^verbatim>\<open>data_from_token\<close> to the same
  node before and after.
\<close>

theorem try_shrink_spec:
  assumes fin: "finish_i s = leading_finish s"
    and le: "finish_i s \<le> next_i s"
  shows "(\<not> (leading_finish s * 2 > length (data s) \<and> length (data s) > 5) \<longrightarrow>
            try_shrink s = Inr s)
       \<and> (leading_finish s * 2 > length (data s) \<and> length (data s) > 5 \<longrightarrow>
            (\<exists>s'. try_shrink s = Inr s'
               \<and> data s' = dropWhile (\<lambda>d. state d = Finish) (data s)
               \<and> next_i s' = next_i s - leading_finish s
               \<and> last_sent_i s' =
                   (case last_sent_i s of
                      None \<Rightarrow> None
                    | Some l \<Rightarrow> if leading_finish s \<le> l then Some (l - leading_finish s)
                                else None)
               \<and> id_offset s' = id_offset s + leading_finish s
               \<and> finish_i s' = 0
               \<and> (\<forall>pos < length (data s). state (data s ! pos) = Wait \<and> 0 < wait_cnt s \<longrightarrow>
                     (\<exists>s1 s1' pos'.
                        data_from_token (pos + id_offset s) s = Inr (pos, s1)
                        \<and> data_from_token (pos + id_offset s) s' = Inr (pos', s1')
                        \<and> data s' ! pos' = data s ! pos))))"
proof (intro conjI impI)
  assume "\<not> (leading_finish s * 2 > length (data s) \<and> length (data s) > 5)"
  then show "try_shrink s = Inr s"
    using fin by (auto simp: try_shrink_def)
next
  assume big: "leading_finish s * 2 > length (data s) \<and> length (data s) > 5"
  define s' where "s' = s\<lparr>data := drop (finish_i s) (data s),
                       next_i := next_i s - finish_i s,
                       last_sent_i :=
                         (case last_sent_i s of
                            None \<Rightarrow> None
                          | Some l \<Rightarrow> if l \<ge> finish_i s then Some (l - finish_i s) else None),
                       id_offset := id_offset s + finish_i s,
                       finish_i := 0\<rparr>"
  have ts: "try_shrink s = Inr s'"
    using big fin le by (simp add: try_shrink_def s'_def)
  have drop: "drop (finish_i s) (data s) = dropWhile (\<lambda>d. state d = Finish) (data s)"
    unfolding fin leading_finish_def by (rule dropWhile_eq_drop [symmetric])
  have tokens: "\<exists>s1 s1' pos'.
                        data_from_token (pos + id_offset s) s = Inr (pos, s1)
                        \<and> data_from_token (pos + id_offset s) s' = Inr (pos', s1')
                        \<and> data s' ! pos' = data s ! pos"
    if pos: "pos < length (data s)" and wait: "state (data s ! pos) = Wait \<and> 0 < wait_cnt s" for pos
  proof -
    have "finish_i s \<le> pos"
    proof (rule ccontr)
      assume "\<not> finish_i s \<le> pos"
      then have "pos < length (takeWhile (\<lambda>d. state d = Finish) (data s))"
        using fin by (simp add: leading_finish_def)
      then have "state (data s ! pos) = Finish"
        using nth_length_takeWhile takeWhile_nth
        by (metis (mono_tags, lifting) nth_mem set_takeWhileD)
      with wait show False by simp
    qed
    then show ?thesis
      using pos wait by (simp add: data_from_token_def s'_def Let_def)
  qed
  show "\<exists>s'. try_shrink s = Inr s'
               \<and> data s' = dropWhile (\<lambda>d. state d = Finish) (data s)
               \<and> next_i s' = next_i s - leading_finish s
               \<and> last_sent_i s' =
                   (case last_sent_i s of
                      None \<Rightarrow> None
                    | Some l \<Rightarrow> if leading_finish s \<le> l then Some (l - leading_finish s)
                                else None)
               \<and> id_offset s' = id_offset s + leading_finish s
               \<and> finish_i s' = 0
               \<and> (\<forall>pos < length (data s). state (data s ! pos) = Wait \<and> 0 < wait_cnt s \<longrightarrow>
                     (\<exists>s1 s1' pos'.
                        data_from_token (pos + id_offset s) s = Inr (pos, s1)
                        \<and> data_from_token (pos + id_offset s) s' = Inr (pos', s1')
                        \<and> data s' ! pos' = data s ! pos))"
    using ts drop tokens fin by (intro exI [of _ s']) (simp add: s'_def split: option.splits)
qed

theorem try_shrink_spec_witness:
  "try_shrink st5 = Inr st5'
   \<and> map_sum id fst (data_from_token 5 st5) = Inr 4
   \<and> map_sum id fst (data_from_token 5 st5') = Inr 0
   \<and> data st5' ! 0 = data st5 ! 4"
proof -
  have fin: "finish_i st5 = leading_finish st5"
    by (simp add: st5_def leading_finish_def mk_data_def)
  have le: "finish_i st5 \<le> next_i st5"
    by (simp add: st5_def)
  show ?thesis
    using try_shrink_spec [OF fin le]
    by (simp add: st5_def st5'_def mk_data_def try_shrink_def data_from_token_def set_data_def)
qed

section \<open>The invariants are kept by every handler\<close>

lemma count_wait_update:
  "i < length ds \<Longrightarrow>
   count_wait (ds[i := d]) + (if state (ds ! i) = Wait then 1 else 0)
     = count_wait ds + (if state d = Wait then 1 else 0)"
proof (induction ds arbitrary: i)
  case Nil
  then show ?case by simp
next
  case (Cons x xs)
  show ?case
  proof (cases i)
    case 0
    then show ?thesis by (simp add: count_wait_def)
  next
    case (Suc j)
    with Cons.prems have "j < length xs" by simp
    from Cons.IH [OF this] Suc show ?thesis
      by (simp add: count_wait_def)
  qed
qed

lemma count_wait_same:
  "i < length ds \<Longrightarrow> (state d = Wait) = (state (ds ! i) = Wait) \<Longrightarrow>
   count_wait (ds[i := d]) = count_wait ds"
  using count_wait_update [of i ds d] by (simp split: if_splits)

lemma count_wait_enter:
  "i < length ds \<Longrightarrow> state (ds ! i) \<noteq> Wait \<Longrightarrow> state d = Wait \<Longrightarrow>
   count_wait (ds[i := d]) = count_wait ds + 1"
  using count_wait_update [of i ds d] by simp

lemma count_wait_leave:
  "i < length ds \<Longrightarrow> state (ds ! i) = Wait \<Longrightarrow> state d \<noteq> Wait \<Longrightarrow>
   count_wait (ds[i := d]) + 1 = count_wait ds"
  using count_wait_update [of i ds d] by simp

lemma count_wait_drop:
  "n \<le> length ds \<Longrightarrow> \<forall>i < n. state (ds ! i) = Finish \<Longrightarrow> count_wait (drop n ds) = count_wait ds"
proof (induction ds arbitrary: n)
  case Nil
  then show ?case by simp
next
  case (Cons x xs)
  show ?case
  proof (cases n)
    case 0
    then show ?thesis by simp
  next
    case (Suc m)
    with Cons.prems have m: "m \<le> length xs" and x: "state x = Finish"
      and rest: "\<forall>i < m. state (xs ! i) = Finish"
      by auto
    from Cons.IH [OF m rest] Suc x show ?thesis
      by (simp add: count_wait_def)
  qed
qed

lemma no_new_dummy_refl: "no_new_dummy s s"
  by (simp add: no_new_dummy_def)

lemma no_new_dummy_trans: "no_new_dummy s s1 \<Longrightarrow> no_new_dummy s1 s2 \<Longrightarrow> no_new_dummy s s2"
  by (simp add: no_new_dummy_def)

subsection \<open>try_resend_query\<close>

lemma inv_try_resend_query:
  assumes "inv_step s" and "try_resend_query pos q s = Inr s'" and "query (data s ! pos) = None"
  shows "inv_step s'" and "no_new_dummy s s'" and "state (data s' ! pos) = Wait"
proof -
  from assms(2) have pos: "pos < length (data s)" and dummy: "state (data s ! pos) = Dummy"
    and s': "s' = (set_data pos ((data s ! pos)\<lparr>state := Wait\<rparr>) s)
                  \<lparr>wait_cnt := wait_cnt s + 1,
                   outbox := outbox s @
                     [OnResultResendable (callback (data s ! pos)) q (pos + id_offset s)]\<rparr>"
    by (auto simp: try_resend_query_def split: if_splits)
  have fin: "finish_i s \<le> pos"
  proof (rule ccontr)
    assume "\<not> finish_i s \<le> pos"
    with assms(1) have "state (data s ! pos) = Finish"
      by (simp add: inv_step_def)
    with dummy show False by simp
  qed
  have "count_wait ((data s)[pos := (data s ! pos)\<lparr>state := Wait\<rparr>]) = count_wait (data s) + 1"
    using pos dummy by (intro count_wait_enter) simp_all
  with assms(1) assms(3) pos fin show "inv_step s'"
    by (auto simp: inv_step_def s' set_data_def nth_list_update node_ok_def)
  show "no_new_dummy s s'"
    using pos by (auto simp: no_new_dummy_def s' set_data_def nth_list_update)
  show "state (data s' ! pos) = Wait"
    using pos by (simp add: s' set_data_def)
qed

subsection \<open>check_timeout\<close>

lemma check_timeout_result:
  assumes "check_timeout c pos s = Inr s'"
  shows "pos < length (data s)"
    and "finish_i s' = finish_i s \<and> next_i s' = next_i s \<and> last_sent_i s' = last_sent_i s
         \<and> generation s' = generation s \<and> id_offset s' = id_offset s \<and> parent s' = parent s"
    and "\<exists>d'. data s' = (data s)[pos := d']
           \<and> net_query_ref d' = net_query_ref (data s ! pos)
           \<and> ((d' = data s ! pos \<and> wait_cnt s' = wait_cnt s)
              \<or> (state (data s ! pos) = Start \<and> state d' = Start \<and> query d' \<noteq> None
                    \<and> wait_cnt s' = wait_cnt s)
              \<or> (state (data s ! pos) = Start \<and> state d' = Wait \<and> query d' = None
                    \<and> wait_cnt s' = wait_cnt s + 1))"
proof -
  show pos: "pos < length (data s)"
    using assms by (auto simp: check_timeout_def split: if_splits)
  show "finish_i s' = finish_i s \<and> next_i s' = next_i s \<and> last_sent_i s' = last_sent_i s
         \<and> generation s' = generation s \<and> id_offset s' = id_offset s \<and> parent s' = parent s"
    using assms
    by (auto simp: check_timeout_def try_resend_query_def set_data_def Let_def
        split: if_splits option.splits)
  show "\<exists>d'. data s' = (data s)[pos := d']
           \<and> net_query_ref d' = net_query_ref (data s ! pos)
           \<and> ((d' = data s ! pos \<and> wait_cnt s' = wait_cnt s)
              \<or> (state (data s ! pos) = Start \<and> state d' = Start \<and> query d' \<noteq> None
                    \<and> wait_cnt s' = wait_cnt s)
              \<or> (state (data s ! pos) = Start \<and> state d' = Wait \<and> query d' = None
                    \<and> wait_cnt s' = wait_cnt s + 1))"
  proof (cases "state (data s ! pos) = Start")
    case False
    with assms pos have "s' = s"
      by (simp add: check_timeout_def)
    then show ?thesis
      by (intro exI [of _ "data s ! pos"]) simp
  next
    case True
    with assms pos obtain q where q: "query (data s ! pos) = Some q"
      by (auto simp: check_timeout_def Let_def split: option.splits)
    show ?thesis
    proof (cases "double_add c (query_total_timeout q) (total_timeout (data s ! pos)) > query_total_timeout_limit q")
      case False
      with assms pos True q show ?thesis
        by (intro exI [of _ "(data s ! pos)\<lparr>query := Some (q\<lparr>query_total_timeout :=
              double_add c (query_total_timeout q) (total_timeout (data s ! pos))\<rparr>), total_timeout := 0\<rparr>"])
          (auto simp: check_timeout_def Let_def set_data_def)
    next
      case over: True
      with assms pos True q show ?thesis
        by (intro exI [of _ "(data s ! pos)\<lparr>total_timeout := 0, query := None, state := Wait\<rparr>"])
          (auto simp: check_timeout_def Let_def set_data_def try_resend_query_def)
    qed
  qed
qed

lemma prefix_not_finish:
  assumes "inv_step s" and "pos < length (data s)" and "state (data s ! pos) \<noteq> Finish"
  shows "finish_i s \<le> pos"
proof (rule ccontr)
  assume "\<not> finish_i s \<le> pos"
  with assms(1) have "state (data s ! pos) = Finish"
    by (simp add: inv_step_def)
  with assms(3) show False by simp
qed

lemma inv_check_timeout:
  assumes inv: "inv_step s" and ct: "check_timeout c pos s = Inr s'"
  shows "inv_step s'" and "no_new_dummy s s'"
    and "\<forall>j. j \<noteq> pos \<longrightarrow> data s' ! j = data s ! j"
    and "state (data s ! pos) = Start \<longrightarrow> state (data s' ! pos) \<noteq> Dummy"
proof -
  note r = check_timeout_result [OF ct]
  from r(3) obtain d' where d: "data s' = (data s)[pos := d']"
    and ref: "net_query_ref d' = net_query_ref (data s ! pos)"
    and alt: "(d' = data s ! pos \<and> wait_cnt s' = wait_cnt s)
              \<or> (state (data s ! pos) = Start \<and> state d' = Start \<and> query d' \<noteq> None
                    \<and> wait_cnt s' = wait_cnt s)
              \<or> (state (data s ! pos) = Start \<and> state d' = Wait \<and> query d' = None
                    \<and> wait_cnt s' = wait_cnt s + 1)"
    by blast
  from alt have cnt: "wait_cnt s' = count_wait (data s')"
  proof (elim disjE conjE)
    assume "d' = data s ! pos" "wait_cnt s' = wait_cnt s"
    with inv d show ?thesis by (simp add: inv_step_def)
  next
    assume "state (data s ! pos) = Start" "state d' = Start" "wait_cnt s' = wait_cnt s"
    with inv d r(1) show ?thesis by (simp add: inv_step_def count_wait_same)
  next
    assume "state (data s ! pos) = Start" "state d' = Wait" "wait_cnt s' = wait_cnt s + 1"
    with inv d r(1) show ?thesis by (simp add: inv_step_def count_wait_enter)
  qed
  have pre: "\<forall>i < finish_i s'. state (data s' ! i) = Finish"
  proof (intro allI impI)
    fix i assume i: "i < finish_i s'"
    show "state (data s' ! i) = Finish"
    proof (cases "i = pos")
      case False
      with i inv d r(2) show ?thesis by (simp add: inv_step_def)
    next
      case True
      with i r(2) have "\<not> finish_i s \<le> pos" by simp
      with prefix_not_finish [OF inv r(1)] have fin: "state (data s ! pos) = Finish" by blast
      with alt have "d' = data s ! pos" by auto
      with True fin d r(1) show ?thesis by simp
    qed
  qed
  have ok: "\<forall>i < length (data s'). node_ok (data s' ! i)"
  proof (intro allI impI)
    fix i assume i: "i < length (data s')"
    show "node_ok (data s' ! i)"
    proof (cases "i = pos")
      case False
      with i inv d show ?thesis by (simp add: inv_step_def)
    next
      case True
      from inv r(1) have "node_ok (data s ! pos)" by (simp add: inv_step_def)
      with alt ref have "node_ok d'" by (auto simp: node_ok_def)
      with True d r(1) show ?thesis by simp
    qed
  qed
  from inv cnt pre ok d r(2) show "inv_step s'"
    by (simp add: inv_step_def)
  from alt d r(1) show "no_new_dummy s s'"
    by (auto simp: no_new_dummy_def nth_list_update)
  from d show "\<forall>j. j \<noteq> pos \<longrightarrow> data s' ! j = data s ! j"
    by simp
  from alt d r(1) show "state (data s ! pos) = Start \<longrightarrow> state (data s' ! pos) \<noteq> Dummy"
    by auto
qed

subsection \<open>data_from_token\<close>

lemma data_from_token_result:
  assumes "data_from_token token s = Inr (pos, s1)"
  shows "pos < length (data s)" and "token = pos + id_offset s"
    and "state (data s ! pos) = Wait" and "0 < wait_cnt s"
    and "s1 = (set_data pos ((data s ! pos)\<lparr>state := Dummy\<rparr>) s)\<lparr>wait_cnt := wait_cnt s - 1\<rparr>"
  using assms by (auto simp: data_from_token_def Let_def split: if_splits)

lemma inv_data_from_token:
  assumes inv: "inv_step s" and dt: "data_from_token token s = Inr (pos, s1)"
  shows "inv_step s1" and "pos < length (data s1)" and "state (data s1 ! pos) = Dummy"
    and "query (data s1 ! pos) = None"
    and "\<forall>i < length (data s1). i \<noteq> pos \<longrightarrow> state (data s1 ! i) = state (data s ! i)"
    and "length (data s1) = length (data s)"
proof -
  note r = data_from_token_result [OF dt]
  have fin: "finish_i s \<le> pos"
    using r(1) r(3) by (intro prefix_not_finish [OF inv]) simp_all
  have "count_wait ((data s)[pos := (data s ! pos)\<lparr>state := Dummy\<rparr>]) + 1 = count_wait (data s)"
    using r(1) r(3) by (intro count_wait_leave) simp_all
  with inv r(4) have cnt: "wait_cnt s - 1 = count_wait ((data s)[pos := (data s ! pos)\<lparr>state := Dummy\<rparr>])"
    by (simp add: inv_step_def)
  from inv r(1) have "node_ok (data s ! pos)"
    by (simp add: inv_step_def)
  with r(3) have q: "query (data s ! pos) = None" and ref: "net_query_ref (data s ! pos) \<noteq> None"
    by (simp_all add: node_ok_def)
  from inv cnt fin ref r(1) show "inv_step s1"
    by (auto simp: inv_step_def r(5) set_data_def nth_list_update node_ok_def)
  from r(1) q show "pos < length (data s1)" and "state (data s1 ! pos) = Dummy"
    and "query (data s1 ! pos) = None"
    and "\<forall>i < length (data s1). i \<noteq> pos \<longrightarrow> state (data s1 ! i) = state (data s ! i)"
    and "length (data s1) = length (data s)"
    by (simp_all add: r(5) set_data_def)
qed

text \<open>Storing a query in a node that is in Dummy.\<close>

lemma inv_restore_query:
  assumes inv: "inv_step s" and pos: "pos < length (data s)"
    and dummy: "state (data s ! pos) = Dummy"
  shows "inv_step (set_data pos ((data s ! pos)\<lparr>query := Some q\<rparr>) s)"
proof -
  have "count_wait ((data s)[pos := (data s ! pos)\<lparr>query := Some q\<rparr>]) = count_wait (data s)"
    using pos by (intro count_wait_same) simp_all
  moreover have "finish_i s \<le> pos"
    using pos dummy by (intro prefix_not_finish [OF inv]) simp_all
  moreover from inv pos have "node_ok (data s ! pos)"
    by (simp add: inv_step_def)
  ultimately show ?thesis
    using inv pos dummy
    by (auto simp: inv_step_def set_data_def nth_list_update node_ok_def)
qed

subsection \<open>do_resend\<close>

lemma inv_do_resend:
  assumes inv: "inv_step s" and dr: "do_resend c pos s = Inr s'"
    and q: "query (data s ! pos) \<noteq> None"
  shows "inv_step s'" and "length (data s') = length (data s)"
    and "\<forall>i < length (data s). state (data s' ! i) = Dummy \<longrightarrow> i \<noteq> pos \<and> state (data s ! i) = Dummy"
proof -
  from dr have pos: "pos < length (data s)" and dummy: "state (data s ! pos) = Dummy"
    by (auto simp: do_resend_def split: if_splits)
  define s1 where "s1 = set_data pos ((data s ! pos)\<lparr>state := Start\<rparr>) s"
  define s2 where "s2 = (if data_generation (data s ! pos) = generation s
                     then s1\<lparr>next_i := finish_i s1,
                             generation := generation s1 + 1,
                             last_sent_i := None\<rparr>
                     else s1)"
  from dr pos dummy have ct: "check_timeout c pos s2 = Inr s'"
    by (auto simp: do_resend_def s1_def s2_def Let_def split: if_splits)
  have "count_wait ((data s)[pos := (data s ! pos)\<lparr>state := Start\<rparr>]) = count_wait (data s)"
    using pos dummy by (intro count_wait_same) simp_all
  moreover have "finish_i s \<le> pos"
    using pos dummy by (intro prefix_not_finish [OF inv]) simp_all
  moreover from inv pos have "node_ok (data s ! pos)"
    by (simp add: inv_step_def)
  ultimately have "inv_step s1"
    using inv pos q
    by (auto simp: inv_step_def s1_def set_data_def nth_list_update node_ok_def)
  then have inv2: "inv_step s2"
    by (simp add: s2_def inv_step_def)
  have d2: "data s2 = (data s)[pos := (data s ! pos)\<lparr>state := Start\<rparr>]"
    by (simp add: s2_def s1_def set_data_def)
  note a = inv_check_timeout [OF inv2 ct]
  show "inv_step s'" by (rule a(1))
  from a(2) show "length (data s') = length (data s)"
    by (simp add: no_new_dummy_def d2)
  show "\<forall>i < length (data s). state (data s' ! i) = Dummy \<longrightarrow> i \<noteq> pos \<and> state (data s ! i) = Dummy"
  proof (intro allI impI)
    fix i assume i: "i < length (data s)" and di: "state (data s' ! i) = Dummy"
    from a(4) pos have "state (data s' ! pos) \<noteq> Dummy"
      by (simp add: d2)
    with di have ne: "i \<noteq> pos" by auto
    with a(3) have "data s' ! i = data s2 ! i" by simp
    with ne di show "i \<noteq> pos \<and> state (data s ! i) = Dummy"
      by (simp add: d2)
  qed
qed

subsection \<open>do_finish\<close>

lemma inv_do_finish:
  assumes inv: "inv_step s" and df: "do_finish pos s = Inr s'"
    and q: "query (data s ! pos) = None"
  shows "inv_step s'" and "length (data s') = length (data s)"
    and "\<forall>i < length (data s). state (data s' ! i) = Dummy \<longrightarrow> i \<noteq> pos \<and> state (data s ! i) = Dummy"
proof -
  from df have pos: "pos < length (data s)" and dummy: "state (data s ! pos) = Dummy"
    by (auto simp: do_finish_def split: if_splits)
  from df pos dummy have d: "data s' = (data s)[pos := (data s ! pos)\<lparr>state := Finish\<rparr>]"
    and f: "wait_cnt s' = wait_cnt s" "finish_i s' = finish_i s" "last_sent_i s' = last_sent_i s"
    by (auto simp: do_finish_def set_data_def Let_def split: if_splits)
  have "count_wait ((data s)[pos := (data s ! pos)\<lparr>state := Finish\<rparr>]) = count_wait (data s)"
    using pos dummy by (intro count_wait_same) simp_all
  moreover from inv pos have "node_ok (data s ! pos)"
    by (simp add: inv_step_def)
  ultimately show "inv_step s'"
    using inv pos q d f
    by (auto simp: inv_step_def nth_list_update node_ok_def)
  from d show "length (data s') = length (data s)"
    by simp
  from d pos show "\<forall>i < length (data s). state (data s' ! i) = Dummy \<longrightarrow> i \<noteq> pos \<and> state (data s ! i) = Dummy"
    by (auto simp: nth_list_update)
qed

subsection \<open>The flood-timeout loop\<close>

lemma inv_add_timeout:
  assumes inv: "inv_step s" and i: "i < length (data s)"
  shows "inv_step (add_timeout c i t s)" and "no_new_dummy s (add_timeout c i t s)"
proof -
  have "count_wait ((data s)[i := (data s ! i)\<lparr>total_timeout := double_add c (total_timeout (data s ! i)) t,
                                last_timeout := t\<rparr>]) = count_wait (data s)"
    using i by (intro count_wait_same) simp_all
  moreover from inv i have "node_ok (data s ! i)"
    by (simp add: inv_step_def)
  ultimately show "inv_step (add_timeout c i t s)"
    using inv i
    by (auto simp: inv_step_def add_timeout_def set_data_def nth_list_update node_ok_def)
  show "no_new_dummy s (add_timeout c i t s)"
    using i by (auto simp: no_new_dummy_def add_timeout_def set_data_def nth_list_update)
qed

lemma inv_propagate_timeout:
  "inv_step s \<Longrightarrow> propagate_timeout c i t s = Inr s' \<Longrightarrow>
   inv_step s' \<and> no_new_dummy s s' \<and> (\<forall>j < i. data s' ! j = data s ! j)"
proof (induction c i t s rule: propagate_timeout.induct)
  case (1 c i t s)
  show ?case
  proof (cases "i < length (data s)")
    case False
    with "1.prems" show ?thesis
      by (simp add: propagate_timeout.simps no_new_dummy_refl)
  next
    case True
    with "1.prems" obtain s1 where ct: "check_timeout c i (add_timeout c i t s) = Inr s1"
      and rest: "propagate_timeout c (i + 1) t s1 = Inr s'"
      by (subst (asm) propagate_timeout.simps) (auto split: sum.splits)
    note a = inv_add_timeout [OF "1.prems"(1) True, of c t]
    note b = inv_check_timeout [OF a(1) ct]
    from "1.IH" [OF True ct b(1) rest]
    have c: "inv_step s'" "no_new_dummy s1 s'" "\<forall>j < i + 1. data s' ! j = data s1 ! j"
      by simp_all
    have "no_new_dummy s s'"
      using a(2) b(2) c(2) by (blast intro: no_new_dummy_trans)
    moreover have "\<forall>j < i. data s' ! j = data s ! j"
      using c(3) b(3) by (simp add: add_timeout_def set_data_def)
    ultimately show ?thesis
      using c(1) by simp
  qed
qed

subsection \<open>loop\<close>

lemma skip_finished_result:
  "\<exists>n. skip_finished s = s\<lparr>finish_i := n\<rparr> \<and> finish_i s \<le> n
       \<and> (\<forall>i. finish_i s \<le> i \<and> i < n \<longrightarrow> i < length (data s) \<and> state (data s ! i) = Finish)
       \<and> \<not> (n < length (data s) \<and> state (data s ! n) = Finish)"
proof (induction s rule: skip_finished.induct)
  case (1 s)
  show ?case
  proof (cases "finish_i s < length (data s) \<and> state (data s ! finish_i s) = Finish")
    case False
    have "skip_finished s = s"
      by (subst skip_finished.simps) (simp only: False if_False)
    with False show ?thesis
      by (intro exI [of _ "finish_i s"]) auto
  next
    case True
    from "1.IH" [OF True] obtain n
      where n: "skip_finished (s\<lparr>finish_i := finish_i s + 1\<rparr>) = s\<lparr>finish_i := n\<rparr>"
        and le: "finish_i s + 1 \<le> n"
        and fin: "\<forall>i. finish_i s + 1 \<le> i \<and> i < n \<longrightarrow> i < length (data s) \<and> state (data s ! i) = Finish"
        and stop: "\<not> (n < length (data s) \<and> state (data s ! n) = Finish)"
      by auto
    from True n have "skip_finished s = s\<lparr>finish_i := n\<rparr>"
      by (subst skip_finished.simps) simp
    moreover have "\<forall>i. finish_i s \<le> i \<and> i < n \<longrightarrow> i < length (data s) \<and> state (data s ! i) = Finish"
    proof (intro allI impI)
      fix i assume i: "finish_i s \<le> i \<and> i < n"
      show "i < length (data s) \<and> state (data s ! i) = Finish"
      proof (cases "i = finish_i s")
        case True
        with \<open>finish_i s < length (data s) \<and> state (data s ! finish_i s) = Finish\<close>
        show ?thesis by simp
      next
        case False
        with i fin show ?thesis by simp
      qed
    qed
    ultimately show ?thesis
      using le stop by (intro exI [of _ n]) simp
  qed
qed

lemma inv_skip_finished:
  assumes "inv_rest s"
  shows "inv_rest (skip_finished s)"
proof -
  from skip_finished_result [of s] obtain n
    where n: "skip_finished s = s\<lparr>finish_i := n\<rparr>" and le: "finish_i s \<le> n"
      and fin: "\<forall>i. finish_i s \<le> i \<and> i < n \<longrightarrow> i < length (data s) \<and> state (data s ! i) = Finish"
    by blast
  have "n \<le> length (data s)"
  proof (cases "n = finish_i s")
    case True
    with assms show ?thesis by (simp add: inv_rest_def inv_step_def)
  next
    case False
    with le have "finish_i s \<le> n - 1 \<and> n - 1 < n" by simp
    with fin have "n - 1 < length (data s)" by blast
    then show ?thesis by simp
  qed
  moreover have "\<forall>i < n. state (data s ! i) = Finish"
  proof (intro allI impI)
    fix i assume "i < n"
    then show "state (data s ! i) = Finish"
      using fin assms by (cases "i < finish_i s") (simp_all add: inv_rest_def inv_step_def)
  qed
  ultimately show ?thesis
    using assms by (simp add: n inv_rest_def inv_step_def)
qed

lemma inv_send_query:
  assumes inv: "inv_rest s" and sq: "send_query s = Inr s'"
    and st: "state (data s ! next_i s) \<noteq> Wait" "state (data s ! next_i s) \<noteq> Finish"
  shows "inv_rest s'"
proof -
  from sq have i: "next_i s < length (data s)"
    by (auto simp: send_query_def Let_def split: if_splits)
  from sq i have d: "data s' = (data s)[next_i s :=
        (data s ! next_i s)\<lparr>query := None, state := Wait, data_generation := generation s\<rparr>]"
    and f: "wait_cnt s' = wait_cnt s + 1" "finish_i s' = finish_i s"
      "last_sent_i s' = Some (next_i s)"
    by (auto simp: send_query_def Let_def set_data_def split: if_splits option.splits sum.splits)
  from inv have step: "inv_step s"
    by (simp add: inv_rest_def)
  have "count_wait ((data s)[next_i s :=
        (data s ! next_i s)\<lparr>query := None, state := Wait, data_generation := generation s\<rparr>])
      = count_wait (data s) + 1"
    using i st(1) by (intro count_wait_enter) simp_all
  moreover have "finish_i s \<le> next_i s"
    using i st(2) by (intro prefix_not_finish [OF step]) simp_all
  moreover from step i have "node_ok (data s ! next_i s)"
    by (simp add: inv_step_def)
  ultimately have "inv_step s'"
    using step i d f by (auto simp: inv_step_def nth_list_update node_ok_def)
  moreover have "\<forall>i < length (data s'). state (data s' ! i) \<noteq> Dummy"
    using inv i d by (auto simp: inv_rest_def nth_list_update)
  ultimately show ?thesis
    by (simp add: inv_rest_def)
qed

lemma inv_send_queries:
  "inv_rest s \<Longrightarrow> send_queries c s = Inr s' \<Longrightarrow> inv_rest s'"
proof (induction c s rule: send_queries.induct)
  case (1 c s)
  show ?case
  proof (cases "next_i s < length (data s) \<and> state (data s ! next_i s) \<noteq> Wait
           \<and> wait_cnt s < MAX_SIMULTANEOUS_WAIT c")
    case False
    from "1.prems"(2) False have "s' = s"
      by (subst (asm) send_queries.simps) simp
    with "1.prems"(1) show ?thesis
      by simp
  next
    case go: True
    show ?thesis
    proof (cases "state (data s ! next_i s) = Finish")
      case True
      with go "1.prems"(2) have "send_queries c (s\<lparr>next_i := next_i s + 1\<rparr>) = Inr s'"
        by (subst (asm) send_queries.simps) simp
      moreover from "1.prems"(1) have "inv_rest (s\<lparr>next_i := next_i s + 1\<rparr>)"
        by (simp add: inv_rest_def inv_step_def)
      ultimately show ?thesis
        using "1.IH"(1) [OF go True] by simp
    next
      case False
      with go "1.prems"(2) obtain s1 where sq: "send_query s = Inr s1"
        and rest: "send_queries c (s1\<lparr>next_i := next_i s1 + 1\<rparr>) = Inr s'"
        by (subst (asm) send_queries.simps) (auto split: sum.splits)
      from go False have "inv_rest s1"
        by (intro inv_send_query [OF "1.prems"(1) sq]) simp_all
      then have "inv_rest (s1\<lparr>next_i := next_i s1 + 1\<rparr>)"
        by (simp add: inv_rest_def inv_step_def)
      with "1.IH"(2) [OF go False sq] rest show ?thesis
        by simp
    qed
  qed
qed

lemma inv_try_shrink:
  assumes inv: "inv_rest s" and ts: "try_shrink s = Inr s'"
  shows "inv_rest s'"
proof (cases "finish_i s * 2 > length (data s) \<and> length (data s) > 5")
  case False
  with ts have "s' = s"
    by (auto simp: try_shrink_def)
  with inv show ?thesis by simp
next
  case True
  with ts have d: "data s' = drop (finish_i s) (data s)" and f: "finish_i s' = 0"
    "wait_cnt s' = wait_cnt s"
    "last_sent_i s' = (case last_sent_i s of
                            None \<Rightarrow> None
                          | Some l \<Rightarrow> if l \<ge> finish_i s then Some (l - finish_i s) else None)"
    by (auto simp: try_shrink_def split: if_splits)
  from inv have le: "finish_i s \<le> length (data s)"
    and pre: "\<forall>i < finish_i s. state (data s ! i) = Finish"
    by (simp_all add: inv_rest_def inv_step_def)
  have "count_wait (drop (finish_i s) (data s)) = count_wait (data s)"
    using le pre by (rule count_wait_drop)
  moreover have "\<forall>l. last_sent_i s' = Some l \<longrightarrow> l < length (data s')"
    using inv by (auto simp: f d inv_rest_def inv_step_def split: option.splits if_splits)
  ultimately show ?thesis
    using inv le by (simp add: inv_rest_def inv_step_def d f)
qed

lemma inv_loop:
  assumes inv: "inv_rest s" and lp: "loop c s = Inr s'"
  shows "inv_rest s'"
proof -
  define s1 where "s1 = skip_finished s"
  define s2 where "s2 = (if next_i s1 < finish_i s1 then s1\<lparr>next_i := finish_i s1\<rparr> else s1)"
  from lp obtain s3 s4 where sq: "send_queries c s2 = Inr s3" and ts: "try_shrink s3 = Inr s4"
    and s': "s' = (if finish_i s4 = length (data s4) \<and> parent s4 \<noteq> None
                       then s4\<lparr>timeout_in := Some 5\<rparr> else s4)"
    unfolding loop_def Let_def s2_def s1_def by (auto split: sum.splits)
  have "inv_rest s1"
    unfolding s1_def using inv by (rule inv_skip_finished)
  then have "inv_rest s2"
    by (simp add: s2_def inv_rest_def inv_step_def)
  then have "inv_rest s3"
    using sq by (rule inv_send_queries)
  then have "inv_rest s4"
    using ts by (rule inv_try_shrink)
  then show ?thesis
    by (simp add: s' inv_rest_def inv_step_def)
qed

subsection \<open>The handlers\<close>

lemma inv_new_dispatcher: "inv_rest (new_dispatcher p r off g)"
  by (simp add: new_dispatcher_def inv_rest_def inv_step_def count_wait_def)

lemma inv_send_with_callback:
  assumes inv: "inv_rest s" and sw: "send_with_callback c q cb s = Inr s'"
  shows "inv_rest s'"
proof -
  define d where "d = \<lparr>state = Start, net_query_ref = get_weak q, query = Some q, callback = cb,
                   data_generation = 0, total_timeout = 0, last_timeout = 0\<rparr>"
  define s0 where "s0 = s\<lparr>timeout_in := None, data := data s @ [d]\<rparr>"
  from sw have lp: "loop c s0 = Inr s'"
    by (simp add: send_with_callback_def s0_def d_def)
  have "node_ok d"
    by (simp add: node_ok_def d_def get_weak_def)
  moreover have "count_wait (data s @ [d]) = count_wait (data s)"
    by (simp add: count_wait_def d_def)
  ultimately have "inv_rest s0"
    using inv
    by (auto simp: inv_rest_def inv_step_def s0_def nth_append d_def)
  then show ?thesis
    using lp by (rule inv_loop)
qed

lemma dummy_free_after:
  assumes inv: "inv_rest s" and dt: "data_from_token token s = Inr (pos, s1)"
    and nd: "no_new_dummy s1 s2"
    and fin: "\<forall>i < length (data s2). state (data s3 ! i) = Dummy \<longrightarrow>
                i \<noteq> pos \<and> state (data s2 ! i) = Dummy"
    and len: "length (data s3) = length (data s2)"
  shows "\<forall>i < length (data s3). state (data s3 ! i) \<noteq> Dummy"
proof (intro allI impI notI)
  fix i assume i: "i < length (data s3)" and d: "state (data s3 ! i) = Dummy"
  from inv have step: "inv_step s"
    by (simp add: inv_rest_def)
  note a = inv_data_from_token [OF step dt]
  from i len fin d have ne: "i \<noteq> pos" and d2: "state (data s2 ! i) = Dummy"
    by simp_all
  from nd i len d2 have "state (data s1 ! i) = Dummy" and i1: "i < length (data s1)"
    by (simp_all add: no_new_dummy_def)
  with a(5) ne have "state (data s ! i) = Dummy"
    by simp
  with inv i1 a(6) show False
    by (simp add: inv_rest_def)
qed

lemma inv_on_result:
  assumes inv: "inv_rest s" and res: "on_result c token q s = Inr s'"
  shows "inv_rest s'"
proof -
  from res obtain pos s1 where dt: "data_from_token token s = Inr (pos, s1)"
    by (cases "data_from_token token s") (auto simp: on_result_def)
  define r2 where "r2 = (if query_last_timeout q \<noteq> 0
                 then propagate_timeout c (pos + 1) (query_last_timeout q) s1
                 else Inr s1)"
  from res dt obtain s2 where pr0: "r2 = Inr s2"
    by (cases r2) (simp_all add: on_result_def r2_def)
  define r3 where "r3 = (if is_resend_error c q
                      then do_resend c pos
                             (set_data pos ((data s2 ! pos)\<lparr>query := Some (resend c q)\<rparr>) s2)
                      else try_resend_query pos q s2)"
  from res dt pr0 obtain s3 where dec0: "r3 = Inr s3"
    by (cases r3) (simp_all add: on_result_def r2_def r3_def)
  from res dt pr0 dec0 have lp: "loop c s3 = Inr s'"
    by (simp add: on_result_def r2_def r3_def)
  note pr = pr0 [unfolded r2_def] and dec = dec0 [unfolded r3_def]
  from inv have step: "inv_step s"
    by (simp add: inv_rest_def)
  note a = inv_data_from_token [OF step dt]
  have b: "inv_step s2 \<and> no_new_dummy s1 s2 \<and> (\<forall>j < pos + 1. data s2 ! j = data s1 ! j)"
  proof (cases "query_last_timeout q \<noteq> 0")
    case True
    with pr have "propagate_timeout c (pos + 1) (query_last_timeout q) s1 = Inr s2"
      by simp
    with a(1) show ?thesis
      by (rule inv_propagate_timeout)
  next
    case False
    with pr a(1) show ?thesis
      by (simp add: no_new_dummy_refl)
  qed
  then have same: "data s2 ! pos = data s1 ! pos" and len2: "length (data s2) = length (data s1)"
    by (simp_all add: no_new_dummy_def)
  have "inv_step s3 \<and> (\<forall>i < length (data s3). state (data s3 ! i) \<noteq> Dummy)"
  proof (cases "is_resend_error c q")
    case True
    define s2' where "s2' = set_data pos ((data s2 ! pos)\<lparr>query := Some (resend c q)\<rparr>) s2"
    from True dec have dr: "do_resend c pos s2' = Inr s3"
      by (simp add: s2'_def)
    have inv2: "inv_step s2'"
      unfolding s2'_def using b a(2) a(3) same len2 by (intro inv_restore_query) simp_all
    have q2: "query (data s2' ! pos) \<noteq> None"
      using a(2) len2 by (simp add: s2'_def set_data_def)
    note e = inv_do_resend [OF inv2 dr q2]
    have "no_new_dummy s2 s2'"
      using a(2) len2 by (simp add: no_new_dummy_def s2'_def set_data_def nth_list_update)
    with b have nd: "no_new_dummy s1 s2'"
      by (blast intro: no_new_dummy_trans)
    from dummy_free_after [OF inv dt nd e(3) e(2)] e(1) show ?thesis
      by simp
  next
    case False
    with dec have tr: "try_resend_query pos q s2 = Inr s3"
      by simp
    have q2: "query (data s2 ! pos) = None"
      using same a(4) by simp
    from b have inv2: "inv_step s2" by simp
    note e = inv_try_resend_query [OF inv2 tr q2]
    have "\<forall>i < length (data s2). state (data s3 ! i) = Dummy \<longrightarrow>
                i \<noteq> pos \<and> state (data s2 ! i) = Dummy"
      using e(2) e(3) by (auto simp: no_new_dummy_def)
    moreover have "length (data s3) = length (data s2)"
      using e(2) by (simp add: no_new_dummy_def)
    moreover from b have "no_new_dummy s1 s2" by simp
    ultimately show ?thesis
      using dummy_free_after [OF inv dt] e(1) by blast
  qed
  then have "inv_rest s3"
    by (simp add: inv_rest_def)
  then show ?thesis
    using lp by (rule inv_loop)
qed

lemma inv_on_resend_ok:
  assumes inv: "inv_rest s" and res: "on_resend_ok c token q s = Inr s'"
  shows "inv_rest s'"
proof -
  from res obtain pos s1 where dt: "data_from_token token s = Inr (pos, s1)"
    by (cases "data_from_token token s") (auto simp: on_resend_ok_def)
  from res dt obtain s2
    where dr: "do_resend c pos (set_data pos ((data s1 ! pos)\<lparr>query := Some q\<rparr>) s1) = Inr s2"
    by (cases "do_resend c pos (set_data pos ((data s1 ! pos)\<lparr>query := Some q\<rparr>) s1)")
      (simp_all add: on_resend_ok_def)
  from res dt dr have lp: "loop c s2 = Inr s'"
    by (simp add: on_resend_ok_def)
  from inv have step: "inv_step s"
    by (simp add: inv_rest_def)
  note a = inv_data_from_token [OF step dt]
  define s1' where "s1' = set_data pos ((data s1 ! pos)\<lparr>query := Some q\<rparr>) s1"
  have inv1: "inv_step s1'"
    unfolding s1'_def using a(1) a(2) a(3) by (rule inv_restore_query)
  have q1: "query (data s1' ! pos) \<noteq> None"
    using a(2) by (simp add: s1'_def set_data_def)
  note e = inv_do_resend [OF inv1 dr [folded s1'_def] q1]
  have nd: "no_new_dummy s1 s1'"
    using a(2) by (simp add: no_new_dummy_def s1'_def set_data_def nth_list_update)
  from dummy_free_after [OF inv dt nd e(3) e(2)] e(1) have "inv_rest s2"
    by (simp add: inv_rest_def)
  then show ?thesis
    using lp by (rule inv_loop)
qed

lemma inv_on_resend_error:
  assumes inv: "inv_rest s" and res: "on_resend_error c token s = Inr s'"
  shows "inv_rest s'"
proof -
  from res obtain pos s1 where dt: "data_from_token token s = Inr (pos, s1)"
    by (cases "data_from_token token s") (auto simp: on_resend_error_def)
  from res dt obtain s2 where df: "do_finish pos s1 = Inr s2"
    by (cases "do_finish pos s1") (simp_all add: on_resend_error_def)
  from res dt df have lp: "loop c s2 = Inr s'"
    by (simp add: on_resend_error_def)
  from inv have step: "inv_step s"
    by (simp add: inv_rest_def)
  note a = inv_data_from_token [OF step dt]
  note e = inv_do_finish [OF a(1) df a(4)]
  from dummy_free_after [OF inv dt no_new_dummy_refl e(3) e(2)] e(1) have "inv_rest s2"
    by (simp add: inv_rest_def)
  then show ?thesis
    using lp by (rule inv_loop)
qed

lemma inv_timeout_expired:
  assumes "inv_rest s" and "timeout_expired s = Inr s'"
  shows "inv_rest s'"
  using assms by (auto simp: timeout_expired_def inv_rest_def inv_step_def split: if_splits)

lemma inv_handle:
  assumes "inv_rest s" and "handle c e s = Inr s'"
  shows "inv_rest s'"
  using assms
  by (cases e)
    (auto intro: inv_send_with_callback inv_on_result inv_on_resend_ok inv_on_resend_error
      inv_timeout_expired)

lemma inv_run: "inv_rest s \<Longrightarrow> run c es s = Inr s' \<Longrightarrow> inv_rest s'"
proof (induction es arbitrary: s)
  case Nil
  then show ?case by simp
next
  case (Cons e es)
  from Cons.prems(2) obtain s1 where h: "handle c e s = Inr s1" and r: "run c es s1 = Inr s'"
    by (auto split: sum.splits)
  from Cons.prems(1) h have "inv_rest s1"
    by (rule inv_handle)
  then show ?case
    using r by (rule Cons.IH)
qed

section \<open>wait_cnt and the cap\<close>

lemma send_queries_cap:
  "send_queries c s = Inr s' \<Longrightarrow> wait_cnt s' \<le> max (wait_cnt s) (MAX_SIMULTANEOUS_WAIT c)"
proof (induction c s rule: send_queries.induct)
  case (1 c s)
  show ?case
  proof (cases "next_i s < length (data s) \<and> state (data s ! next_i s) \<noteq> Wait
           \<and> wait_cnt s < MAX_SIMULTANEOUS_WAIT c")
    case False
    from "1.prems" False have "s' = s"
      by (subst (asm) send_queries.simps) simp
    then show ?thesis by simp
  next
    case go: True
    show ?thesis
    proof (cases "state (data s ! next_i s) = Finish")
      case True
      with go "1.prems" have "send_queries c (s\<lparr>next_i := next_i s + 1\<rparr>) = Inr s'"
        by (subst (asm) send_queries.simps) simp
      with "1.IH"(1) [OF go True] show ?thesis by simp
    next
      case False
      with go "1.prems" obtain s1 where sq: "send_query s = Inr s1"
        and rest: "send_queries c (s1\<lparr>next_i := next_i s1 + 1\<rparr>) = Inr s'"
        by (subst (asm) send_queries.simps) (auto split: sum.splits)
      from sq have "wait_cnt s1 = wait_cnt s + 1"
        by (auto simp: send_query_def Let_def set_data_def split: if_splits option.splits sum.splits)
      with go "1.IH"(2) [OF go False sq] rest show ?thesis
        by simp
    qed
  qed
qed

text \<open>Evaluating a run on concrete input.\<close>

lemmas eval_simps = example_params_def new_dispatcher_def mk_query_def
  send_with_callback_def loop_def skip_finished.simps send_queries.simps send_query_def
  try_shrink_def on_result_def data_from_token_def propagate_timeout.simps check_timeout_def
  try_resend_query_def set_data_def add_timeout_def is_resend_error_def get_weak_def
  set_error_def Let_def upt_rec count_wait_def double_add_def

lemma flood_run:
  "\<exists>s. run example_params flood_events (new_dispatcher None 0 1 1) = Inr s \<and> wait_cnt s = 12"
  by (simp add: flood_events_def eval_simps)

lemma loop_cap:
  assumes "loop c s = Inr s'"
  shows "wait_cnt s' \<le> max (wait_cnt s) (MAX_SIMULTANEOUS_WAIT c)"
proof -
  define s1 where "s1 = skip_finished s"
  define s2 where "s2 = (if next_i s1 < finish_i s1 then s1\<lparr>next_i := finish_i s1\<rparr> else s1)"
  from assms obtain s3 s4 where sq: "send_queries c s2 = Inr s3" and ts: "try_shrink s3 = Inr s4"
    and s': "s' = (if finish_i s4 = length (data s4) \<and> parent s4 \<noteq> None
                       then s4\<lparr>timeout_in := Some 5\<rparr> else s4)"
    unfolding loop_def Let_def s2_def s1_def by (auto split: sum.splits)
  from skip_finished_result [of s] obtain n where "s1 = s\<lparr>finish_i := n\<rparr>"
    unfolding s1_def by blast
  then have "wait_cnt s2 = wait_cnt s"
    by (simp add: s2_def)
  moreover from ts have "wait_cnt s4 = wait_cnt s3"
    by (auto simp: try_shrink_def split: if_splits)
  moreover have "wait_cnt s' = wait_cnt s4"
    by (simp add: s')
  ultimately show ?thesis
    using send_queries_cap [OF sq] by simp
qed

text \<open>
  Claim C4, as amended. After every sequence of submissions, transport results, fulfilled
  resend promises and timer expiries that the dispatcher handles, \<open>wait_cnt\<close> is the number
  of nodes in Wait. \<^verbatim>\<open>MAX_SIMULTANEOUS_WAIT\<close> gates the sends of \<^verbatim>\<open>loop\<close> only: from
  any state, \<^verbatim>\<open>loop\<close> leaves \<open>wait_cnt\<close> at most at the larger of its value before and
  the cap. \<^verbatim>\<open>try_resend_query\<close>, which does not look at the cap, counts one more waiting
  node from any state in which it succeeds.
\<close>

theorem wait_cnt_counts_waiting:
  assumes "run c es (new_dispatcher p r off g) = Inr s"
  shows "wait_cnt s = count_wait (data s)
         \<and> (\<forall>s0 s1. loop c s0 = Inr s1 \<longrightarrow>
               wait_cnt s1 \<le> max (wait_cnt s0) (MAX_SIMULTANEOUS_WAIT c))
         \<and> (\<forall>pos q s0 s1. try_resend_query pos q s0 = Inr s1 \<longrightarrow>
               wait_cnt s1 = wait_cnt s0 + 1)"
proof -
  have "inv_rest s"
    using inv_new_dispatcher assms by (rule inv_run)
  then have "wait_cnt s = count_wait (data s)"
    by (simp add: inv_rest_def inv_step_def)
  moreover have "\<forall>s0 s1. loop c s0 = Inr s1 \<longrightarrow>
               wait_cnt s1 \<le> max (wait_cnt s0) (MAX_SIMULTANEOUS_WAIT c)"
    using loop_cap by blast
  moreover have "\<forall>pos q s0 s1. try_resend_query pos q s0 = Inr s1 \<longrightarrow>
               wait_cnt s1 = wait_cnt s0 + 1"
    by (auto simp: try_resend_query_def split: if_splits)
  ultimately show ?thesis
    by blast
qed

lemma loop_twelve: "\<exists>s. loop example_params st_twelve = Inr s \<and> wait_cnt s = 10"
  by (simp add: st_twelve_def mk_data_def eval_simps)

lemma try_resend_query_twelve:
  "\<exists>s. try_resend_query 11 q0 st_eleven = Inr s \<and> wait_cnt s = 11"
  by (simp add: st_eleven_def try_resend_query_def set_data_def mk_data_def upt_rec)

theorem wait_cnt_counts_waiting_witness:
  "\<exists>s s1 s2. run example_params flood_events (new_dispatcher None 0 1 1) = Inr s
       \<and> wait_cnt s = 12 \<and> count_wait (data s) = 12
       \<and> loop example_params st_twelve = Inr s1 \<and> wait_cnt st_twelve = 0 \<and> wait_cnt s1 = 10
       \<and> try_resend_query 11 q0 st_eleven = Inr s2 \<and> wait_cnt st_eleven = 10
       \<and> wait_cnt s2 = 11"
proof -
  from flood_run obtain s
    where s: "run example_params flood_events (new_dispatcher None 0 1 1) = Inr s"
      and w: "wait_cnt s = 12"
    by blast
  from loop_twelve obtain s1
    where s1: "loop example_params st_twelve = Inr s1" and w1: "wait_cnt s1 = 10"
    by blast
  from try_resend_query_twelve obtain s2
    where s2: "try_resend_query 11 q0 st_eleven = Inr s2" and w2: "wait_cnt s2 = 11"
    by blast
  have w0: "wait_cnt st_twelve = 0" "wait_cnt st_eleven = 10"
    by (simp_all add: st_twelve_def st_eleven_def new_dispatcher_def)
  from wait_cnt_counts_waiting [OF s] have "wait_cnt s = count_wait (data s)"
    and "wait_cnt s1 \<le> max (wait_cnt st_twelve) (MAX_SIMULTANEOUS_WAIT example_params)"
    and "wait_cnt s2 = wait_cnt st_eleven + 1"
    using s1 s2 by blast+
  with s s1 s2 w w1 w2 w0 show ?thesis
    by (intro exI [of _ s] exI [of _ s1] exI [of _ s2]) simp
qed

text \<open>
  The claim as stated fails: with the cap at 10, twelve queries are submitted, ten are
  sent, and the first result carries a flood timeout that exceeds the limit of the two
  queries still in Start. Both are handed to the callback, and so is the returned query:
  twelve nodes wait.
\<close>

theorem wait_cnt_exceeds_cap:
  "map_sum id wait_cnt (run example_params flood_events (new_dispatcher None 0 1 1)) = Inr 12
   \<and> MAX_SIMULTANEOUS_WAIT example_params = 10"
  by (simp add: flood_events_def eval_simps)

section \<open>tear_down\<close>

lemma tear_down_from_result:
  assumes "distinct ps" and "\<forall>i \<in> set ps. i < length (data s)"
  shows "\<exists>s'. tear_down_from c ps s = Inr s'
           \<and> length (data s') = length (data s)
           \<and> (\<forall>i < length (data s).
                 data s' ! i =
                   (case query (data s ! i) of
                      None \<Rightarrow> data s ! i
                    | Some q \<Rightarrow>
                        if i \<in> set ps
                        then (data s ! i)\<lparr>query := Some (set_error (request_aborted_error c) q),
                               state := Finish\<rparr>
                        else data s ! i))
           \<and> outbox s' = outbox s @
                 replicate (if parent s = None then 0
                            else length (filter (\<lambda>i. query (data s ! i) \<noteq> None) ps))
                   ParentOnResult
           \<and> parent s' = parent s"
  using assms
proof (induction ps arbitrary: s)
  case Nil
  then show ?case
    by (auto split: option.splits)
next
  case (Cons p ps)
  from Cons.prems have p: "p < length (data s)" and notin: "p \<notin> set ps"
    and dist: "distinct ps" and rng: "\<forall>i \<in> set ps. i < length (data s)"
    by simp_all
  show ?case
  proof (cases "query (data s ! p)")
    case None
    from Cons.IH [OF dist rng] obtain s' where r: "tear_down_from c ps s = Inr s'"
      "length (data s') = length (data s)"
      "\<forall>i < length (data s).
                 data s' ! i =
                   (case query (data s ! i) of
                      None \<Rightarrow> data s ! i
                    | Some q \<Rightarrow>
                        if i \<in> set ps
                        then (data s ! i)\<lparr>query := Some (set_error (request_aborted_error c) q),
                               state := Finish\<rparr>
                        else data s ! i)"
      "outbox s' = outbox s @
                 replicate (if parent s = None then 0
                            else length (filter (\<lambda>i. query (data s ! i) \<noteq> None) ps))
                   ParentOnResult"
      "parent s' = parent s"
      by blast
    have "\<forall>i < length (data s).
                 data s' ! i =
                   (case query (data s ! i) of
                      None \<Rightarrow> data s ! i
                    | Some q \<Rightarrow>
                        if i \<in> set (p # ps)
                        then (data s ! i)\<lparr>query := Some (set_error (request_aborted_error c) q),
                               state := Finish\<rparr>
                        else data s ! i)"
      using r(3) None by (auto split: option.splits)
    with r None show ?thesis
      by (intro exI [of _ s']) simp
  next
    case (Some q)
    define d where "d = (data s ! p)\<lparr>state := Dummy,
                     query := Some (set_error (request_aborted_error c) q)\<rparr>"
    define s1 where "s1 = set_data p (d\<lparr>state := Finish\<rparr>) s"
    define s2 where "s2 = (if parent s1 \<noteq> None then s1\<lparr>outbox := outbox s1 @ [ParentOnResult]\<rparr> else s1)"
    have df: "do_finish p (set_data p d s) = Inr s2"
      using p by (simp add: do_finish_def set_data_def d_def s1_def s2_def Let_def)
    have step: "tear_down_from c (p # ps) s = tear_down_from c ps s2"
      using Some df by (simp add: d_def)
    have d2: "data s2 = (data s)[p := (data s ! p)\<lparr>query := Some (set_error (request_aborted_error c) q),
                     state := Finish\<rparr>]"
      by (simp add: s2_def s1_def set_data_def d_def)
    have par2: "parent s2 = parent s"
      by (simp add: s2_def s1_def set_data_def)
    have out2: "outbox s2 = outbox s @ replicate (if parent s = None then 0 else 1) ParentOnResult"
      by (simp add: s2_def s1_def set_data_def)
    have rng2: "\<forall>i \<in> set ps. i < length (data s2)"
      using rng by (simp add: d2)
    from Cons.IH [OF dist rng2] obtain s' where r: "tear_down_from c ps s2 = Inr s'"
      "length (data s') = length (data s2)"
      "\<forall>i < length (data s2).
                 data s' ! i =
                   (case query (data s2 ! i) of
                      None \<Rightarrow> data s2 ! i
                    | Some q \<Rightarrow>
                        if i \<in> set ps
                        then (data s2 ! i)\<lparr>query := Some (set_error (request_aborted_error c) q),
                               state := Finish\<rparr>
                        else data s2 ! i)"
      "outbox s' = outbox s2 @
                 replicate (if parent s2 = None then 0
                            else length (filter (\<lambda>i. query (data s2 ! i) \<noteq> None) ps))
                   ParentOnResult"
      "parent s' = parent s2"
      by blast
    have same: "\<forall>i \<in> set ps. data s2 ! i = data s ! i"
    proof
      fix i assume "i \<in> set ps"
      with notin have "p \<noteq> i"
        by auto
      then show "data s2 ! i = data s ! i"
        by (simp add: d2)
    qed
    have flt: "filter (\<lambda>i. query (data s2 ! i) \<noteq> None) ps
                = filter (\<lambda>i. query (data s ! i) \<noteq> None) ps"
      using same by (intro filter_cong) simp_all
    have nodes: "\<forall>i < length (data s).
                 data s' ! i =
                   (case query (data s ! i) of
                      None \<Rightarrow> data s ! i
                    | Some q \<Rightarrow>
                        if i \<in> set (p # ps)
                        then (data s ! i)\<lparr>query := Some (set_error (request_aborted_error c) q),
                               state := Finish\<rparr>
                        else data s ! i)"
    proof (intro allI impI)
      fix i assume i: "i < length (data s)"
      show "data s' ! i =
                   (case query (data s ! i) of
                      None \<Rightarrow> data s ! i
                    | Some q \<Rightarrow>
                        if i \<in> set (p # ps)
                        then (data s ! i)\<lparr>query := Some (set_error (request_aborted_error c) q),
                               state := Finish\<rparr>
                        else data s ! i)"
      proof (cases "i = p")
        case True
        with r(3) p notin Some show ?thesis
          by (simp add: d2)
      next
        case False
        with r(3) i show ?thesis
          by (simp add: d2 split: option.splits)
      qed
    qed
    have "outbox s' = outbox s @
                 replicate (if parent s = None then 0
                            else length (filter (\<lambda>i. query (data s ! i) \<noteq> None) (p # ps)))
                   ParentOnResult"
      unfolding r(4) flt par2 out2 using Some by (simp add: replicate_add [symmetric])
    with r(1) r(2) r(5) nodes step show ?thesis
      by (intro exI [of _ s']) (simp add: d2 par2)
  qed
qed

lemma count_owned_upt: "length (filter (\<lambda>i. query (ds ! i) \<noteq> None) [0..<length ds]) = count_owned ds"
proof -
  have "map (\<lambda>i. ds ! i) [0..<length ds] = ds"
    by (rule map_nth)
  then have "filter (\<lambda>d. query d \<noteq> None) ds
      = filter (\<lambda>d. query d \<noteq> None) (map (\<lambda>i. ds ! i) [0..<length ds])"
    by simp
  also have "\<dots> = map (\<lambda>i. ds ! i) (filter (\<lambda>i. query (ds ! i) \<noteq> None) [0..<length ds])"
    by (simp add: filter_map comp_def)
  finally show ?thesis
    by (simp add: count_owned_def)
qed

text \<open>
  Claim C8, as amended. In every state the dispatcher reaches, \<^verbatim>\<open>tear_down\<close> returns, and
  the nodes that own their query are exactly the nodes in Start. \<^verbatim>\<open>tear_down\<close> sets the
  aborted error on the query of each of them, moves the node to Finish and notifies the
  parent once per such node. It skips every node whose query is away, so a node in Wait
  (its query is at the transport or at the callback) is left as it is.
\<close>

theorem tear_down_spec:
  assumes "run c es (new_dispatcher p r off g) = Inr s"
  shows "\<exists>s'. tear_down c s = Inr s'
           \<and> length (data s') = length (data s)
           \<and> (\<forall>i < length (data s).
                 (query (data s ! i) \<noteq> None) = (state (data s ! i) = Start)
                 \<and> (case query (data s ! i) of
                      None \<Rightarrow> data s' ! i = data s ! i
                    | Some q \<Rightarrow>
                        data s' ! i = (data s ! i)\<lparr>query := Some (set_error (request_aborted_error c) q),
                               state := Finish\<rparr>))
           \<and> outbox s' = outbox s @
                 replicate (if parent s = None then 0 else count_owned (data s)) ParentOnResult"
proof -
  have inv: "inv_rest s"
    using inv_new_dispatcher assms by (rule inv_run)
  have own: "(query (data s ! i) \<noteq> None) = (state (data s ! i) = Start)"
    if "i < length (data s)" for i
  proof -
    from inv that have "node_ok (data s ! i)" and "state (data s ! i) \<noteq> Dummy"
      by (simp_all add: inv_rest_def inv_step_def)
    then show ?thesis
      by (cases "state (data s ! i)") (auto simp: node_ok_def)
  qed
  have "distinct [0..<length (data s)]" and "\<forall>i \<in> set [0..<length (data s)]. i < length (data s)"
    by simp_all
  from tear_down_from_result [OF this, of c] obtain s'
    where r: "tear_down_from c [0..<length (data s)] s = Inr s'"
      "length (data s') = length (data s)"
      "\<forall>i < length (data s).
                 data s' ! i =
                   (case query (data s ! i) of
                      None \<Rightarrow> data s ! i
                    | Some q \<Rightarrow>
                        if i \<in> set [0..<length (data s)]
                        then (data s ! i)\<lparr>query := Some (set_error (request_aborted_error c) q),
                               state := Finish\<rparr>
                        else data s ! i)"
      "outbox s' = outbox s @
                 replicate (if parent s = None then 0
                            else length (filter (\<lambda>i. query (data s ! i) \<noteq> None) [0..<length (data s)]))
                   ParentOnResult"
    by blast
  have "\<forall>i < length (data s).
                 (query (data s ! i) \<noteq> None) = (state (data s ! i) = Start)
                 \<and> (case query (data s ! i) of
                      None \<Rightarrow> data s' ! i = data s ! i
                    | Some q \<Rightarrow>
                        data s' ! i = (data s ! i)\<lparr>query := Some (set_error (request_aborted_error c) q),
                               state := Finish\<rparr>)"
    using r(3) own by (auto split: option.splits)
  with r(1) r(2) r(4) [unfolded count_owned_upt] show ?thesis
    unfolding tear_down_def by (intro exI [of _ s']) blast
qed

lemma two_run:
  "run one_at_a_time two_events (new_dispatcher (Some 3) 0 1 1) = Inr st_two"
  by (simp add: two_events_def one_at_a_time_def st_two_def eval_simps)

theorem tear_down_spec_witness:
  "run one_at_a_time two_events (new_dispatcher (Some 3) 0 1 1) = Inr st_two
   \<and> map state (data st_two) = [Wait, Start]
   \<and> map_sum id (\<lambda>s. map state (data s)) (tear_down one_at_a_time st_two) = Inr [Wait, Finish]
   \<and> map_sum id outbox (tear_down one_at_a_time st_two)
        = Inr (outbox st_two @ [ParentOnResult])"
proof -
  have ev: "map state (data st_two) = [Wait, Start]
   \<and> map_sum id (\<lambda>s. map state (data s)) (tear_down one_at_a_time st_two) = Inr [Wait, Finish]
   \<and> map_sum id outbox (tear_down one_at_a_time st_two)
        = Inr (outbox st_two @ [ParentOnResult])"
    by (simp add: st_two_def tear_down_def do_finish_def one_at_a_time_def eval_simps)
  from tear_down_spec [OF two_run] obtain s'
    where "tear_down one_at_a_time st_two = Inr s'"
      and "length (data s') = length (data st_two)"
    by blast
  with two_run ev show ?thesis
    by simp
qed

text \<open>
  The claim as stated fails: after one submission the query is at the transport and the
  node is in Wait; \<^verbatim>\<open>tear_down\<close> returns the state unchanged.
\<close>

theorem tear_down_skips_waiting:
  "run example_params [SendWithCallback (mk_query 0 0 2) 7] (new_dispatcher (Some 3) 0 1 1)
     = Inr st_sent
   \<and> tear_down example_params st_sent = Inr st_sent
   \<and> map state (data st_sent) = [Wait]"
  by (simp add: st_sent_def tear_down_def eval_simps)

section \<open>do_resend and the generation\<close>

lemma generation_propagate_timeout:
  "propagate_timeout c i t s = Inr s' \<Longrightarrow> generation s' = generation s"
proof (induction c i t s rule: propagate_timeout.induct)
  case (1 c i t s)
  show ?case
  proof (cases "i < length (data s)")
    case False
    with "1.prems" show ?thesis
      by (simp add: propagate_timeout.simps)
  next
    case True
    with "1.prems" obtain s1 where ct: "check_timeout c i (add_timeout c i t s) = Inr s1"
      and rest: "propagate_timeout c (i + 1) t s1 = Inr s'"
      by (subst (asm) propagate_timeout.simps) (auto split: sum.splits)
    from check_timeout_result(2) [OF ct] have "generation s1 = generation s"
      by (simp add: add_timeout_def set_data_def)
    with "1.IH" [OF True ct rest] show ?thesis
      by simp
  qed
qed

lemma generation_send_queries:
  "send_queries c s = Inr s' \<Longrightarrow> generation s' = generation s"
proof (induction c s rule: send_queries.induct)
  case (1 c s)
  show ?case
  proof (cases "next_i s < length (data s) \<and> state (data s ! next_i s) \<noteq> Wait
           \<and> wait_cnt s < MAX_SIMULTANEOUS_WAIT c")
    case False
    from "1.prems" False have "s' = s"
      by (subst (asm) send_queries.simps) simp
    then show ?thesis by simp
  next
    case go: True
    show ?thesis
    proof (cases "state (data s ! next_i s) = Finish")
      case True
      with go "1.prems" have "send_queries c (s\<lparr>next_i := next_i s + 1\<rparr>) = Inr s'"
        by (subst (asm) send_queries.simps) simp
      with "1.IH"(1) [OF go True] show ?thesis by simp
    next
      case False
      with go "1.prems" obtain s1 where sq: "send_query s = Inr s1"
        and rest: "send_queries c (s1\<lparr>next_i := next_i s1 + 1\<rparr>) = Inr s'"
        by (subst (asm) send_queries.simps) (auto split: sum.splits)
      from sq have "generation s1 = generation s"
        by (auto simp: send_query_def Let_def set_data_def split: if_splits option.splits sum.splits)
      with "1.IH"(2) [OF go False sq] rest show ?thesis
        by simp
    qed
  qed
qed

lemma generation_loop:
  assumes "loop c s = Inr s'"
  shows "generation s' = generation s"
proof -
  define s1 where "s1 = skip_finished s"
  define s2 where "s2 = (if next_i s1 < finish_i s1 then s1\<lparr>next_i := finish_i s1\<rparr> else s1)"
  from assms obtain s3 s4 where sq: "send_queries c s2 = Inr s3" and ts: "try_shrink s3 = Inr s4"
    and s': "s' = (if finish_i s4 = length (data s4) \<and> parent s4 \<noteq> None
                       then s4\<lparr>timeout_in := Some 5\<rparr> else s4)"
    unfolding loop_def Let_def s2_def s1_def by (auto split: sum.splits)
  from skip_finished_result [of s] have "generation s1 = generation s"
    by (auto simp: s1_def)
  then have "generation s2 = generation s"
    by (simp add: s2_def)
  moreover from sq have "generation s3 = generation s2"
    by (rule generation_send_queries)
  moreover from ts have "generation s4 = generation s3"
    by (auto simp: try_shrink_def split: if_splits)
  ultimately show ?thesis
    by (simp add: s')
qed

lemma do_resend_unfold:
  assumes "pos < length (data s)" and "state (data s ! pos) = Dummy"
  shows "do_resend c pos s =
           check_timeout c pos
             (if data_generation (data s ! pos) = generation s
              then s\<lparr>data := (data s)[pos := (data s ! pos)\<lparr>state := Start\<rparr>],
                     next_i := finish_i s, generation := generation s + 1,
                     last_sent_i := None\<rparr>
              else s\<lparr>data := (data s)[pos := (data s ! pos)\<lparr>state := Start\<rparr>]\<rparr>)"
  using assms by (simp add: do_resend_def Let_def set_data_def)

lemma do_resend_fields:
  assumes "do_resend c pos s = Inr s'"
  shows "if data_generation (data s ! pos) = generation s
         then next_i s' = finish_i s \<and> generation s' = generation s + 1 \<and> last_sent_i s' = None
         else next_i s' = next_i s \<and> generation s' = generation s
              \<and> last_sent_i s' = last_sent_i s"
proof -
  from assms have pos: "pos < length (data s)" and dummy: "state (data s ! pos) = Dummy"
    by (auto simp: do_resend_def split: if_splits)
  show ?thesis
  proof (cases "data_generation (data s ! pos) = generation s")
    case True
    with assms do_resend_unfold [OF pos dummy]
    have "check_timeout c pos (s\<lparr>data := (data s)[pos := (data s ! pos)\<lparr>state := Start\<rparr>],
                     next_i := finish_i s, generation := generation s + 1,
                     last_sent_i := None\<rparr>) = Inr s'"
      by simp
    from check_timeout_result(2) [OF this] True show ?thesis
      by simp
  next
    case False
    with assms do_resend_unfold [OF pos dummy]
    have "check_timeout c pos (s\<lparr>data := (data s)[pos := (data s ! pos)\<lparr>state := Start\<rparr>]\<rparr>) = Inr s'"
      by simp
    from check_timeout_result(2) [OF this] False show ?thesis
      by simp
  qed
qed

lemma generation_do_resend:
  assumes "do_resend c pos s = Inr s'"
  shows "generation s' = generation s \<or> generation s' = generation s + 1"
  using do_resend_fields [OF assms] by (auto split: if_splits)

lemma generation_data_from_token:
  "data_from_token token s = Inr (pos, s1) \<Longrightarrow> generation s1 = generation s"
  by (auto simp: data_from_token_def set_data_def Let_def split: if_splits)

lemma generation_on_result:
  assumes res: "on_result c token q s = Inr s'"
  shows "generation s' = generation s \<or> generation s' = generation s + 1"
proof -
  from res obtain pos s1 where dt: "data_from_token token s = Inr (pos, s1)"
    by (cases "data_from_token token s") (auto simp: on_result_def)
  define r2 where "r2 = (if query_last_timeout q \<noteq> 0
                 then propagate_timeout c (pos + 1) (query_last_timeout q) s1
                 else Inr s1)"
  from res dt obtain s2 where pr: "r2 = Inr s2"
    by (cases r2) (simp_all add: on_result_def r2_def)
  define r3 where "r3 = (if is_resend_error c q
                      then do_resend c pos
                             (set_data pos ((data s2 ! pos)\<lparr>query := Some (resend c q)\<rparr>) s2)
                      else try_resend_query pos q s2)"
  from res dt pr obtain s3 where dec: "r3 = Inr s3"
    by (cases r3) (simp_all add: on_result_def r2_def r3_def)
  from res dt pr dec have lp: "loop c s3 = Inr s'"
    by (simp add: on_result_def r2_def r3_def)
  have g1: "generation s1 = generation s"
    using dt by (rule generation_data_from_token)
  have g2: "generation s2 = generation s1"
    using pr generation_propagate_timeout by (auto simp: r2_def split: if_splits)
  have g3: "generation s3 = generation s2 \<or> generation s3 = generation s2 + 1"
  proof (cases "is_resend_error c q")
    case True
    with dec have "do_resend c pos
         (set_data pos ((data s2 ! pos)\<lparr>query := Some (resend c q)\<rparr>) s2) = Inr s3"
      by (simp add: r3_def)
    from generation_do_resend [OF this] show ?thesis
      by (simp add: set_data_def)
  next
    case False
    with dec show ?thesis
      by (auto simp: r3_def try_resend_query_def set_data_def split: if_splits)
  qed
  from generation_loop [OF lp] g1 g2 g3 show ?thesis
    by auto
qed

lemma generation_on_resend_ok:
  assumes res: "on_resend_ok c token q s = Inr s'"
  shows "generation s' = generation s \<or> generation s' = generation s + 1"
proof -
  from res obtain pos s1 where dt: "data_from_token token s = Inr (pos, s1)"
    by (cases "data_from_token token s") (auto simp: on_resend_ok_def)
  from res dt obtain s2
    where dr: "do_resend c pos (set_data pos ((data s1 ! pos)\<lparr>query := Some q\<rparr>) s1) = Inr s2"
    by (cases "do_resend c pos (set_data pos ((data s1 ! pos)\<lparr>query := Some q\<rparr>) s1)")
      (simp_all add: on_resend_ok_def)
  from res dt dr have lp: "loop c s2 = Inr s'"
    by (simp add: on_resend_ok_def)
  from generation_do_resend [OF dr] generation_data_from_token [OF dt] generation_loop [OF lp]
  show ?thesis
    by (auto simp: set_data_def)
qed

lemma generation_on_resend_error:
  assumes res: "on_resend_error c token s = Inr s'"
  shows "generation s' = generation s"
proof -
  from res obtain pos s1 where dt: "data_from_token token s = Inr (pos, s1)"
    by (cases "data_from_token token s") (auto simp: on_resend_error_def)
  from res dt obtain s2 where df: "do_finish pos s1 = Inr s2"
    by (cases "do_finish pos s1") (simp_all add: on_resend_error_def)
  from res dt df have lp: "loop c s2 = Inr s'"
    by (simp add: on_resend_error_def)
  from df have "generation s2 = generation s1"
    by (auto simp: do_finish_def set_data_def Let_def split: if_splits)
  with generation_data_from_token [OF dt] generation_loop [OF lp] show ?thesis
    by simp
qed

lemma generation_handle:
  assumes "handle c e s = Inr s'"
  shows "generation s' = generation s \<or> generation s' = generation s + 1"
proof (cases e)
  case (SendWithCallback q cb)
  with assms have "loop c (s\<lparr>timeout_in := None,
               data := data s @
                 [\<lparr>state = Start, net_query_ref = get_weak q, query = Some q, callback = cb,
                   data_generation = 0, total_timeout = 0, last_timeout = 0\<rparr>]\<rparr>) = Inr s'"
    by (simp add: send_with_callback_def)
  from generation_loop [OF this] show ?thesis
    by simp
next
  case (OnResult token q)
  with assms generation_on_result show ?thesis by simp
next
  case (OnResendOk token q)
  with assms generation_on_resend_ok show ?thesis by simp
next
  case (OnResendError token)
  with assms generation_on_resend_error show ?thesis by simp
next
  case TimeoutExpired
  with assms show ?thesis
    by (auto simp: timeout_expired_def split: if_splits)
qed

lemma generation_run: "run c es s = Inr s' \<Longrightarrow> generation s \<le> generation s'"
proof (induction es arbitrary: s)
  case Nil
  then show ?case by simp
next
  case (Cons e es)
  from Cons.prems obtain s1 where h: "handle c e s = Inr s1" and r: "run c es s1 = Inr s'"
    by (auto split: sum.splits)
  from generation_handle [OF h] Cons.IH [OF r] show ?case
    by auto
qed

text \<open>
  Claim C2. \<^verbatim>\<open>do_resend\<close> sets the node's state to Start and then runs
  \<^verbatim>\<open>check_timeout\<close> on it. If the node's generation is the current one, \<open>next_i\<close> is set
  back to \<open>finish_i\<close>, the generation is one more and \<open>last_sent_i\<close> is undefined; if it
  is not, the three are unchanged. No handler lowers the generation: each one leaves it
  as it is or adds exactly one, so it never decreases along a run. The counter is a natural
  number here; its C++ type is declared in the header, which is not in the sources.
\<close>

theorem do_resend_spec:
  assumes "pos < length (data s)" and "state (data s ! pos) = Dummy"
  shows "do_resend c pos s =
           check_timeout c pos
             (if data_generation (data s ! pos) = generation s
              then s\<lparr>data := (data s)[pos := (data s ! pos)\<lparr>state := Start\<rparr>],
                     next_i := finish_i s, generation := generation s + 1,
                     last_sent_i := None\<rparr>
              else s\<lparr>data := (data s)[pos := (data s ! pos)\<lparr>state := Start\<rparr>]\<rparr>)
         \<and> (\<forall>s'. do_resend c pos s = Inr s' \<longrightarrow>
               (if data_generation (data s ! pos) = generation s
                then next_i s' = finish_i s \<and> generation s' = generation s + 1
                     \<and> last_sent_i s' = None
                else next_i s' = next_i s \<and> generation s' = generation s
                     \<and> last_sent_i s' = last_sent_i s))
         \<and> (\<forall>c e s0 s1. handle c e s0 = Inr s1 \<longrightarrow>
               generation s1 = generation s0 \<or> generation s1 = generation s0 + 1)
         \<and> (\<forall>c es s0 s1. run c es s0 = Inr s1 \<longrightarrow> generation s0 \<le> generation s1)"
  using do_resend_unfold [OF assms] do_resend_fields generation_handle generation_run
  by blast

theorem do_resend_spec_witness:
  "do_resend example_params 0 st_back =
     Inr (st_back\<lparr>data := [mk_data Start 0 (Some (mk_query 0 0 2)), mk_data Wait 1 None],
                  next_i := 0, generation := 2, last_sent_i := None\<rparr>)"
proof -
  have pos: "0 < length (data st_back)" and dummy: "state (data st_back ! 0) = Dummy"
    by (simp_all add: st_back_def mk_data_def)
  from do_resend_spec [OF pos dummy] show ?thesis
    by (simp add: st_back_def mk_data_def mk_query_def check_timeout_def set_data_def
        double_add_example)
qed

section \<open>The flood timeout goes to later nodes only\<close>

lemma check_timeout_node:
  assumes "check_timeout c j s = Inr s'"
  shows "state (data s ! j) \<noteq> Start \<longrightarrow> data s' ! j = data s ! j"
    and "state (data s ! j) = Start \<longrightarrow>
           total_timeout (data s' ! j) = 0
           \<and> last_timeout (data s' ! j) = last_timeout (data s ! j)
           \<and> (\<exists>q0. query (data s ! j) = Some q0
                \<and> (if double_add c (query_total_timeout q0) (total_timeout (data s ! j))
                        > query_total_timeout_limit q0
                    then state (data s' ! j) = Wait \<and> query (data s' ! j) = None
                    else state (data s' ! j) = Start
                         \<and> query (data s' ! j) =
                             Some (q0\<lparr>query_total_timeout :=
                                        double_add c (query_total_timeout q0) (total_timeout (data s ! j))\<rparr>)))"
proof -
  from assms have j: "j < length (data s)"
    by (rule check_timeout_result(1))
  show "state (data s ! j) \<noteq> Start \<longrightarrow> data s' ! j = data s ! j"
    using assms j by (auto simp: check_timeout_def)
  show "state (data s ! j) = Start \<longrightarrow>
           total_timeout (data s' ! j) = 0
           \<and> last_timeout (data s' ! j) = last_timeout (data s ! j)
           \<and> (\<exists>q0. query (data s ! j) = Some q0
                \<and> (if double_add c (query_total_timeout q0) (total_timeout (data s ! j))
                        > query_total_timeout_limit q0
                    then state (data s' ! j) = Wait \<and> query (data s' ! j) = None
                    else state (data s' ! j) = Start
                         \<and> query (data s' ! j) =
                             Some (q0\<lparr>query_total_timeout :=
                                        double_add c (query_total_timeout q0) (total_timeout (data s ! j))\<rparr>)))"
  proof (intro impI)
    assume st: "state (data s ! j) = Start"
    with assms j obtain q0 where q0: "query (data s ! j) = Some q0"
      by (cases "query (data s ! j)") (simp_all add: check_timeout_def)
    show "total_timeout (data s' ! j) = 0
           \<and> last_timeout (data s' ! j) = last_timeout (data s ! j)
           \<and> (\<exists>q0. query (data s ! j) = Some q0
                \<and> (if double_add c (query_total_timeout q0) (total_timeout (data s ! j))
                        > query_total_timeout_limit q0
                    then state (data s' ! j) = Wait \<and> query (data s' ! j) = None
                    else state (data s' ! j) = Start
                         \<and> query (data s' ! j) =
                             Some (q0\<lparr>query_total_timeout :=
                                        double_add c (query_total_timeout q0) (total_timeout (data s ! j))\<rparr>)))"
    proof (cases "double_add c (query_total_timeout q0) (total_timeout (data s ! j))
                    > query_total_timeout_limit q0")
      case True
      with j st q0 have "map_sum id (\<lambda>s. data s ! j) (check_timeout c j s) =
          Inr ((data s ! j)\<lparr>total_timeout := 0, query := None, state := Wait\<rparr>)"
        by (simp add: check_timeout_def Let_def try_resend_query_def set_data_def)
      with assms have "data s' ! j =
          (data s ! j)\<lparr>total_timeout := 0, query := None, state := Wait\<rparr>"
        by simp
      with True q0 show ?thesis
        by simp
    next
      case False
      with j st q0 have "map_sum id (\<lambda>s. data s ! j) (check_timeout c j s) =
          Inr ((data s ! j)\<lparr>query := Some (q0\<lparr>query_total_timeout :=
               double_add c (query_total_timeout q0) (total_timeout (data s ! j))\<rparr>), total_timeout := 0\<rparr>)"
        by (simp add: check_timeout_def Let_def set_data_def)
      with assms have "data s' ! j =
          (data s ! j)\<lparr>query := Some (q0\<lparr>query_total_timeout :=
               double_add c (query_total_timeout q0) (total_timeout (data s ! j))\<rparr>), total_timeout := 0\<rparr>"
        by simp
      with False q0 st show ?thesis
        by simp
    qed
  qed
qed

lemma propagate_timeout_nodes:
  "propagate_timeout c i t s = Inr s' \<Longrightarrow>
   length (data s') = length (data s)
   \<and> (\<forall>j < i. data s' ! j = data s ! j)
   \<and> (\<forall>j. i \<le> j \<and> j < length (data s) \<longrightarrow>
         (\<exists>sa sb. length (data sa) = length (data s) \<and> data sa ! j = data s ! j
            \<and> check_timeout c j (add_timeout c j t sa) = Inr sb
            \<and> data s' ! j = data sb ! j))"
proof (induction c i t s rule: propagate_timeout.induct)
  case (1 c i t s)
  show ?case
  proof (cases "i < length (data s)")
    case False
    with "1.prems" show ?thesis
      by (auto simp: propagate_timeout.simps)
  next
    case True
    with "1.prems" obtain s1 where ct: "check_timeout c i (add_timeout c i t s) = Inr s1"
      and rest: "propagate_timeout c (i + 1) t s1 = Inr s'"
      by (subst (asm) propagate_timeout.simps) (auto split: sum.splits)
    from check_timeout_result(3) [OF ct] obtain d'
      where d1: "data s1 = (data (add_timeout c i t s))[i := d']"
      by blast
    then have len1: "length (data s1) = length (data s)"
      and other: "\<forall>j. j \<noteq> i \<longrightarrow> data s1 ! j = data s ! j"
      by (simp_all add: add_timeout_def set_data_def)
    from "1.IH" [OF True ct rest]
    have ih: "length (data s') = length (data s1)"
      "\<forall>j < i + 1. data s' ! j = data s1 ! j"
      "\<forall>j. i + 1 \<le> j \<and> j < length (data s1) \<longrightarrow>
         (\<exists>sa sb. length (data sa) = length (data s1) \<and> data sa ! j = data s1 ! j
            \<and> check_timeout c j (add_timeout c j t sa) = Inr sb
            \<and> data s' ! j = data sb ! j)"
      by simp_all
    have "\<forall>j < i. data s' ! j = data s ! j"
      using ih(2) other by simp
    moreover have "\<forall>j. i \<le> j \<and> j < length (data s) \<longrightarrow>
         (\<exists>sa sb. length (data sa) = length (data s) \<and> data sa ! j = data s ! j
            \<and> check_timeout c j (add_timeout c j t sa) = Inr sb
            \<and> data s' ! j = data sb ! j)"
    proof (intro allI impI)
      fix j assume j: "i \<le> j \<and> j < length (data s)"
      show "\<exists>sa sb. length (data sa) = length (data s) \<and> data sa ! j = data s ! j
            \<and> check_timeout c j (add_timeout c j t sa) = Inr sb
            \<and> data s' ! j = data sb ! j"
      proof (cases "j = i")
        case True
        with ct ih(2) show ?thesis
          by (intro exI [of _ s] exI [of _ s1]) simp
      next
        case False
        with j ih(3) len1 other show ?thesis
          by simp
      qed
    qed
    ultimately show ?thesis
      using ih(1) len1 by simp
  qed
qed

text \<open>
  Claim C3. In \<^verbatim>\<open>on_result\<close> for the node at \<open>pos\<close>, when the returned query's
  \<open>last_timeout\<close> is not 0, the loop runs before the resend decision. It leaves every node
  at a position up to \<open>pos\<close> as it is. For every node behind \<open>pos\<close> it adds the timeout to
  the node's \<open>total_timeout\<close> (a sum of doubles), stores it as the node's \<open>last_timeout\<close> and runs
  \<^verbatim>\<open>check_timeout\<close> on the node: a node that is not in Start keeps the sum, a node in Start
  has the sum moved into its query's running total and is handed to the callback when the
  total exceeds the query's limit.
\<close>

theorem on_result_propagates_forward:
  assumes dt: "data_from_token token s = Inr (pos, s1)"
    and t: "query_last_timeout q \<noteq> 0"
    and pr: "propagate_timeout c (pos + 1) (query_last_timeout q) s1 = Inr s2"
  shows "on_result c token q s =
           (case (if is_resend_error c q
                  then do_resend c pos
                         (set_data pos ((data s2 ! pos)\<lparr>query := Some (resend c q)\<rparr>) s2)
                  else try_resend_query pos q s2) of
              Inl e \<Rightarrow> Inl e
            | Inr s3 \<Rightarrow> loop c s3)
         \<and> length (data s2) = length (data s1)
         \<and> (\<forall>i. i \<le> pos \<longrightarrow> data s2 ! i = data s1 ! i)
         \<and> (\<forall>i. pos < i \<and> i < length (data s1) \<longrightarrow>
               (\<exists>sa sb. data sa ! i = data s1 ! i
                  \<and> check_timeout c i (add_timeout c i (query_last_timeout q) sa) = Inr sb
                  \<and> data s2 ! i = data sb ! i)
               \<and> last_timeout (data s2 ! i) = query_last_timeout q
               \<and> (state (data s1 ! i) \<noteq> Start \<longrightarrow>
                    data s2 ! i =
                      (data s1 ! i)\<lparr>total_timeout :=
                                       double_add c (total_timeout (data s1 ! i))
                                         (query_last_timeout q),
                                     last_timeout := query_last_timeout q\<rparr>)
               \<and> (state (data s1 ! i) = Start \<longrightarrow>
                    total_timeout (data s2 ! i) = 0
                    \<and> (\<exists>q0. query (data s1 ! i) = Some q0
                         \<and> (if double_add c (query_total_timeout q0)
                                      (double_add c (total_timeout (data s1 ! i)) (query_last_timeout q))
                                > query_total_timeout_limit q0
                             then state (data s2 ! i) = Wait \<and> query (data s2 ! i) = None
                             else state (data s2 ! i) = Start
                                  \<and> query (data s2 ! i) =
                                      Some (q0\<lparr>query_total_timeout :=
                                                 double_add c (query_total_timeout q0)
                                                   (double_add c (total_timeout (data s1 ! i)) (query_last_timeout q))\<rparr>)))))"
proof -
  let ?t = "query_last_timeout q"
  note n = propagate_timeout_nodes [OF pr]
  have later: "(\<exists>sa sb. data sa ! i = data s1 ! i
                  \<and> check_timeout c i (add_timeout c i ?t sa) = Inr sb
                  \<and> data s2 ! i = data sb ! i)
               \<and> last_timeout (data s2 ! i) = ?t
               \<and> (state (data s1 ! i) \<noteq> Start \<longrightarrow>
                    data s2 ! i =
                      (data s1 ! i)\<lparr>total_timeout := double_add c (total_timeout (data s1 ! i)) ?t,
                                     last_timeout := ?t\<rparr>)
               \<and> (state (data s1 ! i) = Start \<longrightarrow>
                    total_timeout (data s2 ! i) = 0
                    \<and> (\<exists>q0. query (data s1 ! i) = Some q0
                         \<and> (if double_add c (query_total_timeout q0)
                                      (double_add c (total_timeout (data s1 ! i)) ?t)
                                > query_total_timeout_limit q0
                             then state (data s2 ! i) = Wait \<and> query (data s2 ! i) = None
                             else state (data s2 ! i) = Start
                                  \<and> query (data s2 ! i) =
                                      Some (q0\<lparr>query_total_timeout :=
                                                 double_add c (query_total_timeout q0)
                                                   (double_add c (total_timeout (data s1 ! i)) ?t)\<rparr>))))"
    if i: "pos < i \<and> i < length (data s1)" for i
  proof -
    from i have "pos + 1 \<le> i \<and> i < length (data s1)"
      by simp
    with n [THEN conjunct2, THEN conjunct2, THEN spec, of i]
    obtain sa sb where len: "length (data sa) = length (data s1)"
      and same: "data sa ! i = data s1 ! i"
      and ct: "check_timeout c i (add_timeout c i ?t sa) = Inr sb"
      and res: "data s2 ! i = data sb ! i"
      by blast
    have bumped: "data (add_timeout c i ?t sa) ! i =
                    (data s1 ! i)\<lparr>total_timeout := double_add c (total_timeout (data s1 ! i)) ?t,
                                   last_timeout := ?t\<rparr>"
      using i len same by (simp add: add_timeout_def set_data_def)
    note c = check_timeout_node [OF ct]
    have "\<exists>sa sb. data sa ! i = data s1 ! i
                  \<and> check_timeout c i (add_timeout c i ?t sa) = Inr sb
                  \<and> data s2 ! i = data sb ! i"
      using same ct res by blast
    moreover have "last_timeout (data s2 ! i) = ?t"
      using c bumped res by (cases "state (data s1 ! i) = Start") simp_all
    moreover have "state (data s1 ! i) \<noteq> Start \<longrightarrow>
                    data s2 ! i =
                      (data s1 ! i)\<lparr>total_timeout := double_add c (total_timeout (data s1 ! i)) ?t,
                                     last_timeout := ?t\<rparr>"
      using c(1) bumped res by simp
    moreover have "state (data s1 ! i) = Start \<longrightarrow>
                    total_timeout (data s2 ! i) = 0
                    \<and> (\<exists>q0. query (data s1 ! i) = Some q0
                         \<and> (if double_add c (query_total_timeout q0)
                                      (double_add c (total_timeout (data s1 ! i)) ?t)
                                > query_total_timeout_limit q0
                             then state (data s2 ! i) = Wait \<and> query (data s2 ! i) = None
                             else state (data s2 ! i) = Start
                                  \<and> query (data s2 ! i) =
                                      Some (q0\<lparr>query_total_timeout :=
                                                 double_add c (query_total_timeout q0)
                                                   (double_add c (total_timeout (data s1 ! i)) ?t)\<rparr>)))"
    proof (intro impI)
      assume st: "state (data s1 ! i) = Start"
      with bumped have "state (data (add_timeout c i ?t sa) ! i) = Start"
        by simp
      with c(2) obtain q0 where tt: "total_timeout (data sb ! i) = 0"
        and q0: "query (data (add_timeout c i ?t sa) ! i) = Some q0"
        and alt: "if double_add c (query_total_timeout q0)
                       (total_timeout (data (add_timeout c i ?t sa) ! i))
                        > query_total_timeout_limit q0
                    then state (data sb ! i) = Wait \<and> query (data sb ! i) = None
                    else state (data sb ! i) = Start
                         \<and> query (data sb ! i) =
                             Some (q0\<lparr>query_total_timeout :=
                                        double_add c (query_total_timeout q0)
                                          (total_timeout (data (add_timeout c i ?t sa) ! i))\<rparr>)"
        by blast
      from q0 bumped have q1: "query (data s1 ! i) = Some q0"
        by simp
      from bumped have tb: "total_timeout (data (add_timeout c i ?t sa) ! i)
                              = double_add c (total_timeout (data s1 ! i)) ?t"
        by simp
      from tt q1 alt [unfolded tb] res
      show "total_timeout (data s2 ! i) = 0
                    \<and> (\<exists>q0. query (data s1 ! i) = Some q0
                         \<and> (if double_add c (query_total_timeout q0)
                                      (double_add c (total_timeout (data s1 ! i)) ?t)
                                > query_total_timeout_limit q0
                             then state (data s2 ! i) = Wait \<and> query (data s2 ! i) = None
                             else state (data s2 ! i) = Start
                                  \<and> query (data s2 ! i) =
                                      Some (q0\<lparr>query_total_timeout :=
                                                 double_add c (query_total_timeout q0)
                                                   (double_add c (total_timeout (data s1 ! i)) ?t)\<rparr>)))"
        by (intro conjI exI [of _ q0]) simp_all
    qed
    ultimately show ?thesis
      by blast
  qed
  have unfold: "on_result c token q s =
           (case (if is_resend_error c q
                  then do_resend c pos
                         (set_data pos ((data s2 ! pos)\<lparr>query := Some (resend c q)\<rparr>) s2)
                  else try_resend_query pos q s2) of
              Inl e \<Rightarrow> Inl e
            | Inr s3 \<Rightarrow> loop c s3)"
    using dt t pr by (simp add: on_result_def)
  have len: "length (data s2) = length (data s1)"
    using n by simp
  have earlier: "\<forall>i. i \<le> pos \<longrightarrow> data s2 ! i = data s1 ! i"
    using n by simp
  show ?thesis
    by (intro conjI allI impI unfold len earlier [THEN spec, THEN mp] later [THEN conjunct1]
        later [THEN conjunct2, THEN conjunct1]
        later [THEN conjunct2, THEN conjunct2, THEN conjunct1, THEN mp]
        later [THEN conjunct2, THEN conjunct2, THEN conjunct2, THEN mp, THEN conjunct1]
        later [THEN conjunct2, THEN conjunct2, THEN conjunct2, THEN mp, THEN conjunct2])
      simp_all
qed

theorem on_result_propagates_forward_witness:
  "\<exists>s1 s2. data_from_token 1 st_four = Inr (0, s1)
     \<and> propagate_timeout example_params 1 5 s1 = Inr s2
     \<and> map total_timeout (data s1) = [0, 0, 0, 0]
     \<and> map total_timeout (data s2) = [0, 5, 5, 0]
     \<and> map last_timeout (data s2) = [0, 5, 5, 5]
     \<and> map state (data s2) = [Dummy, Wait, Wait, Wait]"
proof -
  define q where "q = (mk_query 0 0 2)\<lparr>query_last_timeout := 5\<rparr>"
  obtain s1 where dt: "data_from_token 1 st_four = Inr (0, s1)"
    and s1: "s1 = (set_data 0 ((data st_four ! 0)\<lparr>state := Dummy\<rparr>) st_four)\<lparr>wait_cnt := 2\<rparr>"
    by (simp add: data_from_token_def st_four_def mk_data_def set_data_def)
  obtain s2 where pr: "propagate_timeout example_params (0 + 1) (query_last_timeout q) s1 = Inr s2"
    and s2: "map total_timeout (data s2) = [0, 5, 5, 0]"
      "map last_timeout (data s2) = [0, 5, 5, 5]"
      "map state (data s2) = [Dummy, Wait, Wait, Wait]"
    by (simp add: q_def s1 st_four_def mk_data_def mk_query_def set_data_def add_timeout_def
        propagate_timeout.simps check_timeout_def try_resend_query_def set_error_def Let_def
        double_add_example)
  have t: "query_last_timeout q \<noteq> 0"
    by (simp add: q_def)
  from on_result_propagates_forward [OF dt t pr]
  have "length (data s2) = length (data s1)"
    by blast
  with dt pr s2 show ?thesis
    by (intro exI [of _ s1] exI [of _ s2])
      (simp add: q_def s1 st_four_def mk_data_def set_data_def)
qed

section \<open>The count of the old multi-chain dispatcher\<close>

lemma cnt_of_send_with_callback_old:
  assumes "send_with_callback_old q cb chain_ids m = Inr m'"
  shows "cnt_of m' k = cnt_of m k + (if chain_ids ! 0 = k then 1 else 0)"
  using assms
  by (auto simp: send_with_callback_old_def cnt_of_def Let_def
      split: if_splits option.splits)

lemma cnt_of_on_result_old:
  assumes "on_result_old token m = Inr m'"
  shows "cnt_of m' k = cnt_of m k - (if token = k then 1 else 0)"
  using assms by (auto simp: on_result_old_def cnt_of_def split: option.splits)

lemma cnt_of_ready_to_close:
  assumes "ready_to_close token m = Inr m'"
  shows "cnt_of m' k = cnt_of m k"
  using assms by (auto simp: ready_to_close_def cnt_of_def split: option.splits if_splits)

lemma cnt_of_multi_run:
  "multi_run es m = Inr m' \<Longrightarrow>
   cnt_of m' k = cnt_of m k + int (submitted es k) - int (reported es k)"
proof (induction es arbitrary: m)
  case Nil
  then show ?case
    by (simp add: submitted_def reported_def)
next
  case (Cons e es)
  from Cons.prems obtain m1 where h: "multi_handle e m = Inr m1"
    and r: "multi_run es m1 = Inr m'"
    by (auto split: sum.splits)
  have step: "cnt_of m1 k = cnt_of m k + (if routed_to k e then 1 else 0)
                - (if e = ChildOnResult k then 1 else 0)"
  proof (cases e)
    case (Submit q cb chain_ids)
    with h have s: "send_with_callback_old q cb chain_ids m = Inr m1"
      by simp
    then have "chain_ids \<noteq> []"
      by (auto simp: send_with_callback_old_def split: if_splits)
    with cnt_of_send_with_callback_old [OF s, of k] Submit show ?thesis
      by simp
  next
    case (ChildOnResult token)
    with h cnt_of_on_result_old [of token m m1 k] show ?thesis
      by auto
  next
    case (ChildReadyToClose token)
    with h cnt_of_ready_to_close [of token m m1 k] show ?thesis
      by simp
  qed
  from Cons.IH [OF r] step show ?case
    by (simp add: submitted_def reported_def)
qed

text \<open>
  Claim C10. Each submission the old multi-chain dispatcher accepts adds one to the count
  of the sequence id it is routed to, and each \<^verbatim>\<open>on_result\<close> of a child takes one off, so
  after any run the count is the number of submissions routed to the id less the number
  of results reported for it. \<^verbatim>\<open>ready_to_close\<close> erases the child exactly when the count is
  0: while more queries have been submitted than reported, the child is there and
  \<^verbatim>\<open>ready_to_close\<close> changes nothing.
\<close>

theorem multi_old_count:
  assumes "multi_run es new_multi_old = Inr m"
  shows "cnt_of m k = int (submitted es k) - int (reported es k)
         \<and> (\<forall>q cb chain_ids m'. send_with_callback_old q cb chain_ids m = Inr m' \<longrightarrow>
               cnt_of m' (chain_ids ! 0) = cnt_of m (chain_ids ! 0) + 1)
         \<and> (\<forall>m'. on_result_old k m = Inr m' \<longrightarrow> cnt_of m' k = cnt_of m k - 1)
         \<and> (\<forall>m'. ready_to_close k m = Inr m' \<longrightarrow>
               (dispatchers m' k = None) = (cnt_of m k = 0))
         \<and> (reported es k < submitted es k \<longrightarrow>
               dispatchers m k \<noteq> None \<and> ready_to_close k m = Inr m)"
proof -
  have total: "cnt_of m k = int (submitted es k) - int (reported es k)"
    using cnt_of_multi_run [OF assms, of k] by (simp add: cnt_of_def new_multi_old_def)
  have send: "\<forall>q cb chain_ids m'. send_with_callback_old q cb chain_ids m = Inr m' \<longrightarrow>
               cnt_of m' (chain_ids ! 0) = cnt_of m (chain_ids ! 0) + 1"
    using cnt_of_send_with_callback_old by simp
  have res: "\<forall>m'. on_result_old k m = Inr m' \<longrightarrow> cnt_of m' k = cnt_of m k - 1"
    using cnt_of_on_result_old by simp
  have close: "\<forall>m'. ready_to_close k m = Inr m' \<longrightarrow>
               (dispatchers m' k = None) = (cnt_of m k = 0)"
    by (auto simp: ready_to_close_def cnt_of_def split: option.splits if_splits)
  have kept: "dispatchers m k \<noteq> None \<and> ready_to_close k m = Inr m"
    if "reported es k < submitted es k"
  proof -
    from that total have "cnt_of m k \<noteq> 0"
      by simp
    then show ?thesis
      by (auto simp: ready_to_close_def cnt_of_def split: option.splits)
  qed
  from total send res close kept show ?thesis
    by blast
qed

theorem multi_old_count_witness:
  "\<exists>m. multi_run [Submit q0 7 [5, 6], Submit q0 8 [5], ChildOnResult 5] new_multi_old = Inr m
      \<and> cnt_of m 5 = 1 \<and> dispatchers m 5 \<noteq> None \<and> ready_to_close 5 m = Inr m"
proof -
  obtain m
    where m: "multi_run [Submit q0 7 [5, 6], Submit q0 8 [5], ChildOnResult 5] new_multi_old
                = Inr m"
    by (simp add: send_with_callback_old_def on_result_old_def new_multi_old_def Let_def)
  have "reported [Submit q0 7 [5, 6], Submit q0 8 [5], ChildOnResult 5] 5
          < submitted [Submit q0 7 [5, 6], Submit q0 8 [5], ChildOnResult 5] 5"
    by (simp add: reported_def submitted_def)
  with multi_old_count [OF m, of 5] m show ?thesis
    by (intro exI [of _ m]) (simp add: reported_def submitted_def)
qed

section \<open>The new multi-chain dispatcher on the scheduler of the spec\<close>

lemma chain_scheduler_simps:
  "create_task chain_scheduler chain_ids node ts =
     (if chain_ids = [] then Inl CheckFailed
      else Inr (ts @ [\<lparr>task_chains = chain_ids, task_state = Pending, task_extra = node\<rparr>]))"
  "get_task_extra chain_scheduler i ts =
     (if live_task ts i then Some (task_extra (ts ! i)) else None)"
  "set_task_extra chain_scheduler i node ts = ts[i := (ts ! i)\<lparr>task_extra := node\<rparr>]"
  "finish_task chain_scheduler i ts =
     (if live_task ts i then Inr (ts[i := (ts ! i)\<lparr>task_state := Finished\<rparr>])
      else Inl CheckFailed)"
  "reset_task chain_scheduler i ts =
     (if live_task ts i then Inr (ts[i := (ts ! i)\<lparr>task_state := Pending\<rparr>])
      else Inl CheckFailed)"
  "start_next_task chain_scheduler ts =
     (case List.find (runnable ts) [0..<length ts] of
        None \<Rightarrow> None
      | Some i \<Rightarrow> Some ((i, parents_of ts i), ts[i := (ts ! i)\<lparr>task_state := Active\<rparr>]))"
  by (simp_all add: chain_scheduler_def)

text \<open>
  The scheduler on concrete tasks: the parents are the nearest live predecessors, one for
  each chain, without duplicates; a Pending task holds back the later tasks of its chains
  and no other; \<open>finish_task\<close> and \<open>reset_task\<close> fail on an id that is not live.
\<close>

lemma start_next_task_examples:
  "start_next_task chain_scheduler
     [mk_task [1] Active 0, mk_task [2] Active 1, mk_task [1, 2] Pending 2]
   = Some ((2, [0, 1]),
           [mk_task [1] Active 0, mk_task [2] Active 1,
            (mk_task [1, 2] Pending 2)\<lparr>task_state := Active\<rparr>])"
  "start_next_task chain_scheduler
     [mk_task [1] Finished 0, mk_task [2] Active 1, mk_task [1, 2] Pending 2]
   = Some ((2, [1]),
           [mk_task [1] Finished 0, mk_task [2] Active 1,
            (mk_task [1, 2] Pending 2)\<lparr>task_state := Active\<rparr>])"
  "start_next_task chain_scheduler
     [mk_task [1, 2] Active 0, mk_task [1, 2] Pending 1]
   = Some ((1, [0]),
           [mk_task [1, 2] Active 0, (mk_task [1, 2] Pending 1)\<lparr>task_state := Active\<rparr>])"
  "start_next_task chain_scheduler
     [mk_task [1] Active 0, mk_task [2] Pending 1, mk_task [1, 2] Pending 2]
   = Some ((1, []),
           [mk_task [1] Active 0, (mk_task [2] Pending 1)\<lparr>task_state := Active\<rparr>,
            mk_task [1, 2] Pending 2])"
  "start_next_task chain_scheduler [mk_task [1] Active 0, mk_task [2] Finished 1] = None"
  by (simp_all add: chain_scheduler_simps runnable_def parents_of_def predecessor_def
      map_filter_def mk_task_def upt_rec)

lemma runnable_examples:
  "\<not> runnable [mk_task [2] Pending 0, mk_task [1, 2] Pending 1] 1"
  "runnable [mk_task [2] Pending 0, mk_task [1, 3] Pending 1] 1"
  "runnable [mk_task [2] Active 0, mk_task [1, 2] Pending 1] 1"
  "\<not> runnable [mk_task [2] Active 0, mk_task [1, 2] Active 1] 1"
  by (simp_all add: runnable_def mk_task_def upt_rec)

lemma finish_reset_examples:
  "finish_task chain_scheduler 0 [mk_task [1] Active 0, mk_task [1] Pending 1]
     = Inr [mk_task [1] Finished 0, mk_task [1] Pending 1]"
  "finish_task chain_scheduler 2 [mk_task [1] Active 0, mk_task [1] Pending 1] = Inl CheckFailed"
  "finish_task chain_scheduler 0 [mk_task [1] Finished 0] = Inl CheckFailed"
  "reset_task chain_scheduler 0 [mk_task [1] Active 0, mk_task [1] Active 1]
     = Inr [(mk_task [1] Active 0)\<lparr>task_state := Pending\<rparr>, mk_task [1] Active 1]"
  "reset_task chain_scheduler 2 [mk_task [1] Active 0] = Inl CheckFailed"
  "get_task_extra chain_scheduler 0 [mk_task [1] Finished 0] = None"
  "get_task_extra chain_scheduler 1 [mk_task [1] Active 0] = None"
  "create_task chain_scheduler [] node [] = Inl CheckFailed"
  by (simp_all add: chain_scheduler_simps live_task_def mk_task_def)















lemmas new_eval_simps = send_with_callback_new_def on_result_new_def on_resend_new_def
  chain_scheduler_simps flush_pending_queries.simps runnable_def parents_of_def
  predecessor_def live_task_def map_filter_def multi_one_def get_weak_def

section \<open>Which results are resent locally\<close>

lemma id_offset_propagate_timeout:
  "propagate_timeout c i t s = Inr s' \<Longrightarrow> id_offset s' = id_offset s"
proof (induction c i t s rule: propagate_timeout.induct)
  case (1 c i t s)
  show ?case
  proof (cases "i < length (data s)")
    case False
    with "1.prems" show ?thesis
      by (simp add: propagate_timeout.simps)
  next
    case True
    with "1.prems" obtain s1 where ct: "check_timeout c i (add_timeout c i t s) = Inr s1"
      and rest: "propagate_timeout c (i + 1) t s1 = Inr s'"
      by (subst (asm) propagate_timeout.simps) (auto split: sum.splits)
    from check_timeout_result(2) [OF ct] have "id_offset s1 = id_offset s"
      by (simp add: add_timeout_def set_data_def)
    with "1.IH" [OF True ct rest] show ?thesis
      by simp
  qed
qed

text \<open>
  Claim C7. On a transport result, both \<^verbatim>\<open>SequenceDispatcher::on_result\<close> and
  \<^verbatim>\<open>MultiSequenceDispatcherNewImpl::on_result\<close> resend the query themselves exactly when it
  is an error whose code is \<^verbatim>\<open>ResendInvokeAfter\<close>, or whose code is 400 and whose message
  is \<^verbatim>\<open>MSG_WAIT_FAILED\<close> or \<^verbatim>\<open>MSG_WAIT_TIMEOUT\<close>: the single-chain dispatcher stores the
  query after \<^verbatim>\<open>resend()\<close> in the node and runs \<^verbatim>\<open>do_resend\<close>; the multi-chain one calls
  \<^verbatim>\<open>on_resend\<close> with it, which stores the query and its weak reference in the task's
  node, resets the task in the scheduler and flushes the tasks that can start. Every other result is passed to the callback with
  \<^verbatim>\<open>on_result_resendable\<close>, under the token of the node or task.
\<close>

theorem on_result_decision:
  fixes c :: params and q :: NetQuery
  assumes dt: "data_from_token token s = Inr (pos, s1)"
    and pr: "(if query_last_timeout q \<noteq> 0
              then propagate_timeout c (pos + 1) (query_last_timeout q) s1
              else Inr s1) = Inr s2"
    and node: "get_task_extra ops task_id (scheduler m) = Some node"
  defines "local_resend \<equiv>
             (\<exists>code message. query_error q = Some (code, message)
                \<and> (code = ResendInvokeAfter c
                    \<or> (code = 400 \<and> (message = ''MSG_WAIT_FAILED''
                                        \<or> message = ''MSG_WAIT_TIMEOUT''))))"
  shows "(local_resend \<longrightarrow>
            on_result c token q s =
              (case do_resend c pos
                      (set_data pos ((data s2 ! pos)\<lparr>query := Some (resend c q)\<rparr>) s2) of
                 Inl e \<Rightarrow> Inl e
               | Inr s3 \<Rightarrow> loop c s3)
            \<and> on_result_new ops c task_id q m = on_resend_new ops task_id (Inr (resend c q)) m
            \<and> on_result_new ops c task_id q m =
                (case reset_task ops task_id
                        (set_task_extra ops task_id
                           (node\<lparr>node_net_query := Some (resend c q),
                                 node_net_query_ref := get_weak (resend c q)\<rparr>)
                           (scheduler m)) of
                   Inl e \<Rightarrow> Some (Inl e)
                 | Inr sc1 \<Rightarrow> flush_pending_queries ops (m\<lparr>scheduler := sc1\<rparr>)))
         \<and> (\<not> local_resend \<longrightarrow>
            on_result c token q s =
              loop c (s2\<lparr>data := (data s2)[pos := (data s2 ! pos)\<lparr>state := Wait\<rparr>],
                         wait_cnt := wait_cnt s2 + 1,
                         outbox := outbox s2 @
                           [OnResultResendable (callback (data s2 ! pos)) q token]\<rparr>)
            \<and> on_result_new ops c task_id q m =
                Some (Inr (m\<lparr>new_outbox := new_outbox m @
                                [OnResultResendable (node_callback node) q task_id]\<rparr>)))"
proof -
  have cls: "is_resend_error c q = local_resend"
    by (auto simp: is_resend_error_def local_resend_def split: option.splits)
  note r = data_from_token_result [OF dt]
  have len: "length (data s2) = length (data s1)" and same: "data s2 ! pos = data s1 ! pos"
  proof -
    show "length (data s2) = length (data s1)"
      using pr propagate_timeout_nodes [of c "pos + 1" "query_last_timeout q" s1 s2]
      by (auto split: if_splits)
    show "data s2 ! pos = data s1 ! pos"
      using pr propagate_timeout_nodes [of c "pos + 1" "query_last_timeout q" s1 s2]
      by (auto split: if_splits)
  qed
  have pos2: "pos < length (data s2)" and dummy: "state (data s2 ! pos) = Dummy"
    and off: "id_offset s2 = id_offset s1"
  proof -
    show "pos < length (data s2)"
      using r(1) len by (simp add: r(5) set_data_def)
    show "state (data s2 ! pos) = Dummy"
      using r(1) same by (simp add: r(5) set_data_def)
    show "id_offset s2 = id_offset s1"
    proof (cases "query_last_timeout q \<noteq> 0")
      case True
      with pr have "propagate_timeout c (pos + 1) (query_last_timeout q) s1 = Inr s2"
        by simp
      then show ?thesis
        by (rule id_offset_propagate_timeout)
    next
      case False
      with pr show ?thesis by simp
    qed
  qed
  have tok: "pos + id_offset s2 = token"
    using r(2) off by (simp add: r(5) set_data_def)
  have deferred: "try_resend_query pos q s2 =
      Inr (s2\<lparr>data := (data s2)[pos := (data s2 ! pos)\<lparr>state := Wait\<rparr>],
                         wait_cnt := wait_cnt s2 + 1,
                         outbox := outbox s2 @
                           [OnResultResendable (callback (data s2 ! pos)) q token]\<rparr>)"
    using pos2 dummy tok by (simp add: try_resend_query_def set_data_def)
  show ?thesis
    using dt pr node deferred
    by (simp add: on_result_def on_result_new_def on_resend_new_def cls)
qed

theorem on_result_decision_witness:
  "map_sum id outbox (on_result example_params 1 q_ok st_sent)
     = Inr (outbox st_sent @ [OnResultResendable 7 q_ok 1])
   \<and> on_result_new chain_scheduler example_params 0 q_ok multi_one
     = Some (Inr (multi_one\<lparr>new_outbox := new_outbox multi_one @
                                [OnResultResendable 7 q_ok 0]\<rparr>))
   \<and> map_sum id outbox (on_result example_params 1 q_wait_failed st_sent)
     = Inr (outbox st_sent @ [DispatchWithCallback (mk_query 0 0 2) 1])
   \<and> on_result_new chain_scheduler example_params 0 q_wait_failed multi_one
     = Some (Inr (multi_one\<lparr>new_outbox := new_outbox multi_one @
                                [DispatchWithCallback (mk_query 0 0 2) 0]\<rparr>))"
proof -
  define s1 where "s1 = (set_data 0 ((data st_sent ! 0)\<lparr>state := Dummy\<rparr>) st_sent)\<lparr>wait_cnt := 0\<rparr>"
  define node where "node = \<lparr>node_net_query_ref = Some 0, node_net_query = None,
                              node_callback = 7\<rparr>"
  have dt: "data_from_token 1 st_sent = Inr (0, s1)"
    by (simp add: data_from_token_def st_sent_def s1_def set_data_def)
  have pr_ok: "(if query_last_timeout q_ok \<noteq> 0
              then propagate_timeout example_params (0 + 1) (query_last_timeout q_ok) s1
              else Inr s1) = Inr s1"
    by (simp add: q_ok_def mk_query_def)
  have pr_failed: "(if query_last_timeout q_wait_failed \<noteq> 0
              then propagate_timeout example_params (0 + 1) (query_last_timeout q_wait_failed) s1
              else Inr s1) = Inr s1"
    by (simp add: q_wait_failed_def mk_query_def)
  have node: "get_task_extra chain_scheduler 0 (scheduler multi_one) = Some node"
    by (simp add: chain_scheduler_simps multi_one_def live_task_def node_def)
  have plain: "\<not> (\<exists>code message. query_error q_ok = Some (code, message)
                \<and> (code = ResendInvokeAfter example_params
                    \<or> (code = 400 \<and> (message = ''MSG_WAIT_FAILED''
                                        \<or> message = ''MSG_WAIT_TIMEOUT''))))"
    by (simp add: q_ok_def mk_query_def)
  have wait_failed: "\<exists>code message. query_error q_wait_failed = Some (code, message)
                \<and> (code = ResendInvokeAfter example_params
                    \<or> (code = 400 \<and> (message = ''MSG_WAIT_FAILED''
                                        \<or> message = ''MSG_WAIT_TIMEOUT'')))"
    by (simp add: q_wait_failed_def mk_query_def)
  have r: "resend example_params q_wait_failed = mk_query 0 0 2"
    by (simp add: example_params_def q_wait_failed_def mk_query_def)
  from on_result_decision [OF dt pr_ok node] plain
  have ok: "on_result example_params 1 q_ok st_sent =
              loop example_params
                (s1\<lparr>data := (data s1)[0 := (data s1 ! 0)\<lparr>state := Wait\<rparr>],
                    wait_cnt := wait_cnt s1 + 1,
                    outbox := outbox s1 @ [OnResultResendable (callback (data s1 ! 0)) q_ok 1]\<rparr>)"
    and new_ok: "on_result_new chain_scheduler example_params 0 q_ok multi_one =
                Some (Inr (multi_one\<lparr>new_outbox := new_outbox multi_one @
                                [OnResultResendable (node_callback node) q_ok 0]\<rparr>))"
    by blast+
  from on_result_decision [OF dt pr_failed node] wait_failed
  have failed: "on_result example_params 1 q_wait_failed st_sent =
              (case do_resend example_params 0
                      (set_data 0 ((data s1 ! 0)\<lparr>query :=
                         Some (resend example_params q_wait_failed)\<rparr>) s1) of
                 Inl e \<Rightarrow> Inl e
               | Inr s3 \<Rightarrow> loop example_params s3)"
    and new_failed: "on_result_new chain_scheduler example_params 0 q_wait_failed multi_one =
                (case reset_task chain_scheduler 0
                        (set_task_extra chain_scheduler 0
                           (node\<lparr>node_net_query := Some (resend example_params q_wait_failed),
                                 node_net_query_ref :=
                                   get_weak (resend example_params q_wait_failed)\<rparr>)
                           (scheduler multi_one)) of
                   Inl e \<Rightarrow> Some (Inl e)
                 | Inr sc1 \<Rightarrow> flush_pending_queries chain_scheduler (multi_one\<lparr>scheduler := sc1\<rparr>))"
    by blast+
  have a: "map_sum id outbox (on_result example_params 1 q_ok st_sent)
     = Inr (outbox st_sent @ [OnResultResendable 7 q_ok 1])"
    unfolding ok
    by (simp add: q_ok_def s1_def st_sent_def set_data_def eval_simps)
  have b: "on_result_new chain_scheduler example_params 0 q_ok multi_one
     = Some (Inr (multi_one\<lparr>new_outbox := new_outbox multi_one @
                                [OnResultResendable 7 q_ok 0]\<rparr>))"
    unfolding new_ok by (simp add: node_def)
  have c: "map_sum id outbox (on_result example_params 1 q_wait_failed st_sent)
     = Inr (outbox st_sent @ [DispatchWithCallback (mk_query 0 0 2) 1])"
    unfolding failed r
    by (simp add: s1_def st_sent_def set_data_def do_resend_def check_timeout_def eval_simps)
  have d: "on_result_new chain_scheduler example_params 0 q_wait_failed multi_one
     = Some (Inr (multi_one\<lparr>new_outbox := new_outbox multi_one @
                                [DispatchWithCallback (mk_query 0 0 2) 0]\<rparr>))"
    unfolding new_failed r
    by (simp add: new_eval_simps node_def mk_query_def)
  from a b c d show ?thesis
    by blast
qed

section \<open>The precondition on the chain ids\<close>



section \<open>Where loop sends and shrinks\<close>

text \<open>
  The hypotheses of the theorems on the dispatch step and on \<^verbatim>\<open>try_shrink\<close> hold where
  \<^verbatim>\<open>loop\<close> reaches them. At rest and between two sends, a node in Start owns its query
  and a defined \<open>last_sent_i\<close> is the position of a node with a weak reference.
\<close>

lemma send_query_ready:
  assumes "inv_rest s" and "next_i s < length (data s)" and "state (data s ! next_i s) = Start"
  shows "\<exists>q. query (data s ! next_i s) = Some q"
    and "\<forall>l. last_sent_i s = Some l \<longrightarrow>
           l < length (data s) \<and> net_query_ref (data s ! l) \<noteq> None"
proof -
  from assms have "node_ok (data s ! next_i s)"
    by (simp add: inv_rest_def inv_step_def)
  with assms(3) show "\<exists>q. query (data s ! next_i s) = Some q"
    by (auto simp: node_ok_def)
  show "\<forall>l. last_sent_i s = Some l \<longrightarrow>
           l < length (data s) \<and> net_query_ref (data s ! l) \<noteq> None"
  proof (intro allI impI)
    fix l assume "last_sent_i s = Some l"
    with assms(1) have l: "l < length (data s)"
      by (simp add: inv_rest_def inv_step_def)
    with assms(1) have "node_ok (data s ! l)"
      by (simp add: inv_rest_def inv_step_def)
    with l show "l < length (data s) \<and> net_query_ref (data s ! l) \<noteq> None"
      by (simp add: node_ok_def)
  qed
qed

text \<open>
  \<^verbatim>\<open>loop\<close> calls \<^verbatim>\<open>try_shrink\<close> with \<open>finish_i\<close> at the first node that is not in
  Finish, and not behind \<open>next_i\<close>.
\<close>

lemma leading_finish_skip_finished:
  assumes "inv_rest s"
  shows "finish_i (skip_finished s) = leading_finish (skip_finished s)"
proof -
  from skip_finished_result [of s] obtain n
    where n: "skip_finished s = s\<lparr>finish_i := n\<rparr>" and le: "finish_i s \<le> n"
      and fin: "\<forall>i. finish_i s \<le> i \<and> i < n \<longrightarrow> i < length (data s) \<and> state (data s ! i) = Finish"
      and stop: "\<not> (n < length (data s) \<and> state (data s ! n) = Finish)"
    by blast
  from inv_skip_finished [OF assms] have len: "n \<le> length (data s)"
    by (simp add: n inv_rest_def inv_step_def)
  have all: "state (data s ! i) = Finish" if "i < n" for i
    using that fin assms by (cases "i < finish_i s") (simp_all add: inv_rest_def inv_step_def)
  have "takeWhile (\<lambda>d. state d = Finish) (data s) = take n (data s)"
    using all stop by (intro takeWhile_eq_take_P_nth) auto
  with len show ?thesis
    by (simp add: n leading_finish_def)
qed

lemma leading_finish_send_query:
  assumes sq: "send_query s = Inr s'" and st: "state (data s ! next_i s) \<noteq> Finish"
  shows "leading_finish s' = leading_finish s" and "finish_i s' = finish_i s"
    and "next_i s' = next_i s"
proof -
  from sq have i: "next_i s < length (data s)"
    by (auto simp: send_query_def Let_def split: if_splits)
  from sq i have d: "data s' = (data s)[next_i s :=
        (data s ! next_i s)\<lparr>query := None, state := Wait, data_generation := generation s\<rparr>]"
    and f: "finish_i s' = finish_i s" "next_i s' = next_i s"
    by (auto simp: send_query_def Let_def set_data_def split: if_splits option.splits sum.splits)
  have "map (\<lambda>d. state d = Finish) (data s') = (map (\<lambda>d. state d = Finish) (data s))
          [next_i s := (map (\<lambda>d. state d = Finish) (data s)) ! next_i s]"
    using i st by (simp add: d map_update)
  then have "map (\<lambda>d. state d = Finish) (data s') = map (\<lambda>d. state d = Finish) (data s)"
    by simp
  then have "takeWhile id (map (\<lambda>d. state d = Finish) (data s'))
               = takeWhile id (map (\<lambda>d. state d = Finish) (data s))"
    by simp
  then have "length (takeWhile (id \<circ> (\<lambda>d. state d = Finish)) (data s'))
               = length (takeWhile (id \<circ> (\<lambda>d. state d = Finish)) (data s))"
    unfolding takeWhile_map by (metis length_map)
  then show "leading_finish s' = leading_finish s"
    by (simp add: leading_finish_def comp_def)
  from f show "finish_i s' = finish_i s" and "next_i s' = next_i s"
    by simp_all
qed

lemma leading_finish_send_queries:
  "send_queries c s = Inr s' \<Longrightarrow> finish_i s = leading_finish s \<Longrightarrow> finish_i s \<le> next_i s \<Longrightarrow>
   finish_i s' = leading_finish s' \<and> finish_i s' \<le> next_i s'"
proof (induction c s rule: send_queries.induct)
  case (1 c s)
  show ?case
  proof (cases "next_i s < length (data s) \<and> state (data s ! next_i s) \<noteq> Wait
           \<and> wait_cnt s < MAX_SIMULTANEOUS_WAIT c")
    case False
    from "1.prems"(1) False have "s' = s"
      by (subst (asm) send_queries.simps) simp
    with "1.prems" show ?thesis by simp
  next
    case go: True
    show ?thesis
    proof (cases "state (data s ! next_i s) = Finish")
      case True
      with go "1.prems"(1) have "send_queries c (s\<lparr>next_i := next_i s + 1\<rparr>) = Inr s'"
        by (subst (asm) send_queries.simps) simp
      moreover from "1.prems" have "finish_i (s\<lparr>next_i := next_i s + 1\<rparr>)
          = leading_finish (s\<lparr>next_i := next_i s + 1\<rparr>)"
        and "finish_i (s\<lparr>next_i := next_i s + 1\<rparr>) \<le> next_i (s\<lparr>next_i := next_i s + 1\<rparr>)"
        by (simp_all add: leading_finish_def)
      ultimately show ?thesis
        using "1.IH"(1) [OF go True] by blast
    next
      case False
      with go "1.prems"(1) obtain s1 where sq: "send_query s = Inr s1"
        and rest: "send_queries c (s1\<lparr>next_i := next_i s1 + 1\<rparr>) = Inr s'"
        by (subst (asm) send_queries.simps) (auto split: sum.splits)
      note a = leading_finish_send_query [OF sq False]
      from a "1.prems" have "finish_i (s1\<lparr>next_i := next_i s1 + 1\<rparr>)
          = leading_finish (s1\<lparr>next_i := next_i s1 + 1\<rparr>)"
        and "finish_i (s1\<lparr>next_i := next_i s1 + 1\<rparr>) \<le> next_i (s1\<lparr>next_i := next_i s1 + 1\<rparr>)"
        by (simp_all add: leading_finish_def)
      with "1.IH"(2) [OF go False sq rest] show ?thesis
        by blast
    qed
  qed
qed

lemma loop_calls_try_shrink:
  assumes inv: "inv_rest s"
  shows "\<exists>s2. finish_i s2 = leading_finish s2 \<and> finish_i s2 \<le> next_i s2
           \<and> loop c s =
               (case send_queries c s2 of
                  Inl e \<Rightarrow> Inl e
                | Inr s3 \<Rightarrow>
                    (case try_shrink s3 of
                       Inl e \<Rightarrow> Inl e
                     | Inr s4 \<Rightarrow>
                         Inr (if finish_i s4 = length (data s4) \<and> parent s4 \<noteq> None
                              then s4\<lparr>timeout_in := Some 5\<rparr> else s4)))
           \<and> (\<forall>s3. send_queries c s2 = Inr s3 \<longrightarrow>
                 finish_i s3 = leading_finish s3 \<and> finish_i s3 \<le> next_i s3)"
proof -
  define s1 where "s1 = skip_finished s"
  define s2 where "s2 = (if next_i s1 < finish_i s1 then s1\<lparr>next_i := finish_i s1\<rparr> else s1)"
  have "finish_i s1 = leading_finish s1"
    unfolding s1_def using inv by (rule leading_finish_skip_finished)
  then have p: "finish_i s2 = leading_finish s2" "finish_i s2 \<le> next_i s2"
    by (simp_all add: s2_def leading_finish_def)
  moreover have "loop c s =
               (case send_queries c s2 of
                  Inl e \<Rightarrow> Inl e
                | Inr s3 \<Rightarrow>
                    (case try_shrink s3 of
                       Inl e \<Rightarrow> Inl e
                     | Inr s4 \<Rightarrow>
                         Inr (if finish_i s4 = length (data s4) \<and> parent s4 \<noteq> None
                              then s4\<lparr>timeout_in := Some 5\<rparr> else s4)))"
    unfolding loop_def Let_def s2_def s1_def by simp
  moreover have "\<forall>s3. send_queries c s2 = Inr s3 \<longrightarrow>
                 finish_i s3 = leading_finish s3 \<and> finish_i s3 \<le> next_i s3"
    using leading_finish_send_queries p by blast
  ultimately show ?thesis
    by blast
qed

end
